theory Spec2Isabelle
  imports Main
begin

section \<open>Errors and Go library functions\<close>

text \<open>
  Go's \<open>error\<close> values, as the two packages build them: \<open>errors.New\<close>, the sentinel
  \<open>nix.ErrPackageNotFound\<close>, \<open>errors.Wrap\<close>, \<open>usererr.WithUserMessage\<close>, the
  \<open>*exec.ExitError\<close> of a process that exited non-zero, the sentinel
  \<open>fs.ErrNotExist\<close> of the file system, and any other error handed back by a
  collaborator (the lockfile's \<open>ResolutionError\<close> among them).
\<close>

datatype error =
    ErrorsNew string
  | ErrPackageNotFound
  | Wrap error string
  | WithUserMessage error string
  | ExitError
  | ErrNotExist
  | ResolutionError string
  | External string

text \<open>\<open>errors.Is(err, nix.ErrPackageNotFound)\<close>: the sentinel occurs in the chain.\<close>

fun isErrPackageNotFound :: "error \<Rightarrow> bool" where
  "isErrPackageNotFound ErrPackageNotFound = True"
| "isErrPackageNotFound (Wrap e m) = isErrPackageNotFound e"
| "isErrPackageNotFound (WithUserMessage e m) = isErrPackageNotFound e"
| "isErrPackageNotFound (ErrorsNew m) = False"
| "isErrPackageNotFound ExitError = False"
| "isErrPackageNotFound ErrNotExist = False"
| "isErrPackageNotFound (ResolutionError m) = False"
| "isErrPackageNotFound (External m) = False"

text \<open>\<open>errors.Is(err, fs.ErrNotExist)\<close>.\<close>

fun isErrNotExist :: "error \<Rightarrow> bool" where
  "isErrNotExist ErrNotExist = True"
| "isErrNotExist (Wrap e m) = isErrNotExist e"
| "isErrNotExist (WithUserMessage e m) = isErrNotExist e"
| "isErrNotExist (ErrorsNew m) = False"
| "isErrNotExist ErrPackageNotFound = False"
| "isErrNotExist ExitError = False"
| "isErrNotExist (ResolutionError m) = False"
| "isErrNotExist (External m) = False"

text \<open>\<open>strings.Contains(s, substr)\<close>: \<open>substr\<close> occurs in \<open>s\<close> as a contiguous block.\<close>

fun hasPrefix :: "string \<Rightarrow> string \<Rightarrow> bool" where
  "hasPrefix s [] = True"
| "hasPrefix [] (p # ps) = False"
| "hasPrefix (c # cs) (p # ps) = (c = p \<and> hasPrefix cs ps)"

fun Contains :: "string \<Rightarrow> string \<Rightarrow> bool" where
  "Contains [] substr = (substr = [])"
| "Contains (c # cs) substr = (hasPrefix (c # cs) substr \<or> Contains cs substr)"

text \<open>
  \<open>strings.TrimSpace\<close> cuts the leading and then the trailing runes for which
  \<open>unicode.IsSpace\<close> holds. A Go string is a sequence of bytes; a rune is read off
  it by UTF-8 decoding, from the front for the leading cut and from the back for the
  trailing one, and a byte that starts or ends no well-formed shortest encoding is
  read as U+FFFD, which is no white space. So a white-space rune is read exactly
  where one of the encodings below stands: tab, line feed, vertical tab, form feed,
  carriage return, space, U+0085, U+00A0, U+1680, U+2000 to U+200A, U+2028, U+2029,
  U+202F, U+205F and U+3000.
\<close>

definition whiteSpace :: "string list" where
  "whiteSpace =
     [[CHR 0x09], [CHR 0x0A], [CHR 0x0B], [CHR 0x0C], [CHR 0x0D], [CHR 0x20],
      [CHR 0xC2, CHR 0x85], [CHR 0xC2, CHR 0xA0],
      [CHR 0xE1, CHR 0x9A, CHR 0x80],
      [CHR 0xE2, CHR 0x80, CHR 0x80], [CHR 0xE2, CHR 0x80, CHR 0x81],
      [CHR 0xE2, CHR 0x80, CHR 0x82], [CHR 0xE2, CHR 0x80, CHR 0x83],
      [CHR 0xE2, CHR 0x80, CHR 0x84], [CHR 0xE2, CHR 0x80, CHR 0x85],
      [CHR 0xE2, CHR 0x80, CHR 0x86], [CHR 0xE2, CHR 0x80, CHR 0x87],
      [CHR 0xE2, CHR 0x80, CHR 0x88], [CHR 0xE2, CHR 0x80, CHR 0x89],
      [CHR 0xE2, CHR 0x80, CHR 0x8A],
      [CHR 0xE2, CHR 0x80, CHR 0xA8], [CHR 0xE2, CHR 0x80, CHR 0xA9],
      [CHR 0xE2, CHR 0x80, CHR 0xAF], [CHR 0xE2, CHR 0x81, CHR 0x9F],
      [CHR 0xE3, CHR 0x80, CHR 0x80]]"

text \<open>Cut from the front of \<open>s\<close> as long as one of the \<open>blocks\<close> stands there.\<close>

function trimPrefixes :: "string list \<Rightarrow> string \<Rightarrow> string" where
  "trimPrefixes blocks s =
     (case find (\<lambda>e. e \<noteq> [] \<and> hasPrefix s e) blocks of
        None \<Rightarrow> s
      | Some e \<Rightarrow> trimPrefixes blocks (drop (length e) s))"
  by pat_completeness auto
termination
proof (relation "measure (\<lambda>(blocks, s). length s)", goal_cases)
  case 1
  show ?case by simp
next
  case (2 blocks s e)
  then have e: "e \<noteq> []" "hasPrefix s e"
    by (auto simp: find_Some_iff)
  then have "s \<noteq> []"
    by (cases e; cases s) auto
  with e show ?case by simp
qed

declare trimPrefixes.simps [simp del]

definition TrimLeftSpace :: "string \<Rightarrow> string" where
  "TrimLeftSpace s = trimPrefixes whiteSpace s"

definition TrimRightSpace :: "string \<Rightarrow> string" where
  "TrimRightSpace s = rev (trimPrefixes (map rev whiteSpace) (rev s))"

definition TrimSpace :: "string \<Rightarrow> string" where
  "TrimSpace s = TrimRightSpace (TrimLeftSpace s)"

section \<open>internal/cloud/mutagen/wrapper.go\<close>

text \<open>
  \<open>cmd.CombinedOutput()\<close> hands back the bytes the process wrote to stdout and stderr
  and an error: none, an \<open>*exec.ExitError\<close> when the process exited non-zero, or
  another error when it could not be run at all.
\<close>

record CombinedOutput =
  out :: string
  err :: "error option"

definition noSessionsFound :: string where
  "noSessionsFound = ''unable to locate requested sessions''"

text \<open>
  \<open>List\<close>. The process run and \<open>json.Unmarshal\<close> are the two collaborators; the
  session type is declared outside this file and stays a type parameter.
\<close>

definition List :: "(string \<Rightarrow> error + 'session list) \<Rightarrow> CombinedOutput \<Rightarrow> error + 'session list" where
  "List unmarshal res =
     (case err res of
        Some e \<Rightarrow>
          (if e = ExitError then
             (let errMsg = TrimSpace (out res) in
              if Contains errMsg noSessionsFound then Inr []
              else Inl (ErrorsNew errMsg))
           else Inl e)
      | None \<Rightarrow> unmarshal (out res))"

text \<open>\<open>execMutagen\<close>, the sibling every other session command goes through.\<close>

definition execMutagen :: "CombinedOutput \<Rightarrow> error option" where
  "execMutagen res =
     (case err res of
        Some e \<Rightarrow> (if e = ExitError then Some (ErrorsNew (TrimSpace (out res))) else Some e)
      | None \<Rightarrow> None)"

section \<open>internal/impl/packages.go: data\<close>

text \<open>\<open>strings.Join\<close> and the \<open>%d\<close> verb of \<open>fmt.Sprintf\<close> on a non-negative number.\<close>

fun Join :: "string list \<Rightarrow> string \<Rightarrow> string" where
  "Join [] sep = []"
| "Join [x] sep = x"
| "Join (x # y # ys) sep = x @ sep @ Join (y # ys) sep"

fun itoa :: "nat \<Rightarrow> string" where
  "itoa n = (if n < 10 then [''0123456789'' ! n]
             else itoa (n div 10) @ [''0123456789'' ! (n mod 10)])"

declare itoa.simps [simp del]

text \<open>
  \<open>lo.Uniq\<close> keeps the first occurrence of every element, in order; \<open>lo.Without\<close>
  drops every occurrence of the excluded element.
\<close>

fun UniqFrom :: "'a list \<Rightarrow> 'a list \<Rightarrow> 'a list" where
  "UniqFrom result [] = result"
| "UniqFrom result (item # rest) =
     (if item \<in> set result then UniqFrom result rest else UniqFrom (result @ [item]) rest)"

definition Uniq :: "'a list \<Rightarrow> 'a list" where
  "Uniq collection = UniqFrom [] collection"

definition Without :: "'a list \<Rightarrow> 'a \<Rightarrow> 'a list" where
  "Without collection exclude = filter (\<lambda>x. x \<noteq> exclude) collection"

datatype installMode = install | uninstall | ensure

text \<open>
  What the program does to the world outside its own memory, in the order it does it:
  output on \<open>d.writer\<close>, calls on the package store, on the lockfile and the local
  state cache, and on the plugin and wrapper generators. The file-system calls of
  \<open>profilePath\<close> are not in this record: what they change is in the session below.
\<close>

datatype event =
    EvFprint string
  | EvFwarning string
  | EvFerror string
  | EvGenerateForPrintEnv
  | EvEnsureNixpkgsPrefetched string
  | EvProfileListItems
  | EvProfileInstall string string
  | EvProfileRemove nat
  | EvRemoveInvalidSymlinks
  | EvComputeNixEnv
  | EvLockfileTidy
  | EvLockfileSave
  | EvLockfileAdd "string list"
  | EvLockfileRemove "string list"
  | EvLocalLockUpdate
  | EvSaveCfg
  | EvPluginRemove "string list"
  | EvPrintReadme string
  | EvCreateWrappers

text \<open>
  \<open>nixprofile.NixProfileListItem\<close>: the position of an item in one listing of the
  profile, and the package the store reports there.
\<close>

record NixProfileListItem =
  index :: nat
  storePathOrAttr :: string

text \<open>
  The \<open>Devbox\<close> session object together with what it owns on disk and in the store:
  the declared packages (\<open>d.cfg.Packages\<close>) and the saved \<open>devbox.json\<close>, the lockfile
  in memory (raw reference and resolved entry) and as last saved, the local state
  cache, the items of the nix profile in listing order, whether the profile
  directory is one of the older format (it holds a \<open>manifest.nix\<close>), the package
  variable \<open>resetCheckDone\<close>, and the calls made so far.
\<close>

record Devbox =
  cfg_Packages :: "string list"
  savedCfg :: "string list"
  lockfile :: "(string \<times> string) list"
  savedLockfile :: "(string \<times> string) list"
  localLock :: "(string list \<times> (string \<times> string) list) option"
  profile :: "string list"
  legacyProfile :: bool
  resetCheckDone :: bool
  events :: "event list"

text \<open>
  The collaborators' answers. Whether an external call fails is not decided by this
  code; each call has its outcome here, \<open>None\<close> for success, and the outcome depends
  on the arguments of the call only, so that the same call has the same outcome
  throughout one run. \<open>storeIdentity\<close> is the
  resolved store identity of a package reference, \<open>resolve\<close> the external authority's
  resolution of a reference for the lockfile, \<open>ValidateExists\<close> its existence check.
  \<open>evalSymlinksErr\<close>, \<open>statErr\<close>, \<open>osRemoveErr\<close> and \<open>mkdirAllErr\<close> are the outcomes of
  the file-system calls of \<open>resetProfileDirForFlakes\<close> and \<open>profilePath\<close>;
  \<open>fs.ErrNotExist\<close> from \<open>filepath.EvalSymlinks\<close> says that there is no profile
  directory yet.
\<close>

record World =
  storeIdentity :: "string \<Rightarrow> string"
  ValidateExists :: "string \<Rightarrow> error + bool"
  resolve :: "string \<Rightarrow> string option"
  localLockErr :: "error option"
  isUpToDateErr :: "error option"
  generateErr :: "error option"
  prefetchErr :: "string \<Rightarrow> error option"
  evalSymlinksErr :: "error option"
  statErr :: "error option"
  osRemoveErr :: "error option"
  mkdirAllErr :: "error option"
  listItemsErr :: "error option"
  listIndexErr :: "string \<Rightarrow> error option"
  installErr :: "string \<Rightarrow> error option"
  removeErr :: "nat \<Rightarrow> error option"
  removeInvalidSymlinksErr :: "error option"
  computeNixEnvErr :: "error option"
  lockfileSaveErr :: "error option"
  lockfileRemoveErr :: "error option"
  localLockUpdateErr :: "error option"
  saveCfgErr :: "error option"
  pluginRemoveErr :: "error option"
  printReadmeErr :: "string \<Rightarrow> error option"
  createWrappersErr :: "error option"

definition emit :: "event \<Rightarrow> Devbox \<Rightarrow> Devbox" where
  "emit ev d = d\<lparr>events := events d @ [ev]\<rparr>"

text \<open>A call on a collaborator that changes nothing else the model tracks.\<close>

definition extCall :: "event \<Rightarrow> error option \<Rightarrow> Devbox \<Rightarrow> error option \<times> Devbox" where
  "extCall ev outcome d = (outcome, emit ev d)"

definition andThen ::
  "error option \<times> Devbox \<Rightarrow> (Devbox \<Rightarrow> error option \<times> Devbox) \<Rightarrow> error option \<times> Devbox" where
  "andThen r f = (case r of (Some e, d) \<Rightarrow> (Some e, d) | (None, d) \<Rightarrow> f d)"

definition newline :: char where
  "newline = CHR 0x0A"

section \<open>Collaborators of packages.go\<close>

text \<open>
  Modelled from the spec: \<open>devpkg.Package\<close> (\<open>CanonicalName\<close>, \<open>Versioned\<close>,
  \<open>Equals\<close>) is not among the source files. The canonical name is the reference
  with any version suffix stripped; the versioned form carries an explicit version,
  \<open>@latest\<close> when none was given; two references are equal iff their resolved store
  identities are.
\<close>

definition CanonicalName :: "string \<Rightarrow> string" where
  "CanonicalName raw = takeWhile (\<lambda>c. c \<noteq> CHR ''@'') raw"

definition Versioned :: "string \<Rightarrow> string" where
  "Versioned raw = (if CHR ''@'' \<in> set raw then raw else raw @ ''@latest'')"

definition pkgEquals :: "World \<Rightarrow> string \<Rightarrow> string \<Rightarrow> bool" where
  "pkgEquals env a b = (storeIdentity env a = storeIdentity env b)"

text \<open>
  Modelled from the spec: \<open>d.PackagesAsInputs()\<close> is not among the source files. It
  is the declared package list of the manifest, in priority order.
\<close>

definition PackagesAsInputs :: "Devbox \<Rightarrow> string list" where
  "PackagesAsInputs d = cfg_Packages d"

text \<open>
  Modelled from the spec: \<open>d.findPackageByName\<close> is not among the source files. It
  looks a declared package up by name and hands back the package as it is written
  in the config; more than one match counts as not found, and \<open>Add\<close> and \<open>Remove\<close>
  read only the name, empty when nothing was found. A declared package answers to
  its canonical name and to its own reference (\<open>Add\<close> hands the name it found to
  \<open>Remove\<close>, which looks it up again).
\<close>

definition findPackageByName :: "Devbox \<Rightarrow> string \<Rightarrow> string" where
  "findPackageByName d pkgName =
     (case filter (\<lambda>p. p = pkgName \<or> CanonicalName p = pkgName) (cfg_Packages d) of
        [found] \<Rightarrow> found
      | _ \<Rightarrow> [])"

text \<open>
  Modelled from the spec: the local state cache (\<open>lock.Local\<close>, \<open>IsUpToDate\<close>,
  \<open>Update\<close>) is not among the source files. It records the manifest and lockfile of
  the last successful reconciliation and is up to date iff both match the current
  ones; a hash is modelled by the value hashed. \<open>IsUpToDate\<close> only reads.
\<close>

definition IsUpToDate :: "World \<Rightarrow> Devbox \<Rightarrow> error + bool" where
  "IsUpToDate env d =
     (case isUpToDateErr env of
        Some e \<Rightarrow> Inl e
      | None \<Rightarrow> Inr (localLock d = Some (cfg_Packages d, lockfile d)))"

definition Update :: "World \<Rightarrow> Devbox \<Rightarrow> error option \<times> Devbox" where
  "Update env d =
     (case localLockUpdateErr env of
        Some e \<Rightarrow> (Some e, emit EvLocalLockUpdate d)
      | None \<Rightarrow> (None, emit EvLocalLockUpdate (d\<lparr>localLock := Some (cfg_Packages d, lockfile d)\<rparr>)))"

text \<open>
  Modelled from the spec: the lockfile (\<open>Tidy\<close>, \<open>Save\<close>, \<open>Add\<close>, \<open>Remove\<close>) is not
  among the source files. \<open>Tidy\<close> drops the entries whose raw reference is no longer
  in the declared list; \<open>Save\<close> writes the lockfile atomically, so a failed save
  leaves the saved one as it was; \<open>Add\<close> resolves each reference that has no entry
  yet and fails when the external authority cannot resolve it; \<open>Remove\<close> drops the
  entries of the references given, absent ones being no-ops.
\<close>

definition Tidy :: "Devbox \<Rightarrow> Devbox" where
  "Tidy d =
     emit EvLockfileTidy
       (d\<lparr>lockfile := filter (\<lambda>(raw, entry). raw \<in> set (cfg_Packages d)) (lockfile d)\<rparr>)"

definition Save :: "World \<Rightarrow> Devbox \<Rightarrow> error option \<times> Devbox" where
  "Save env d =
     (case lockfileSaveErr env of
        Some e \<Rightarrow> (Some e, emit EvLockfileSave d)
      | None \<Rightarrow> (None, emit EvLockfileSave (d\<lparr>savedLockfile := lockfile d\<rparr>)))"

fun resolveAll :: "World \<Rightarrow> string list \<Rightarrow> (string \<times> string) list \<Rightarrow> error + (string \<times> string) list" where
  "resolveAll env [] lk = Inr lk"
| "resolveAll env (r # refs) lk =
     (if r \<in> fst ` set lk then resolveAll env refs lk
      else (case resolve env r of
              None \<Rightarrow> Inl (ResolutionError r)
            | Some entry \<Rightarrow> resolveAll env refs (lk @ [(r, entry)])))"

definition lockfileAdd :: "World \<Rightarrow> string list \<Rightarrow> Devbox \<Rightarrow> error option \<times> Devbox" where
  "lockfileAdd env refs d =
     (case resolveAll env refs (lockfile d) of
        Inl e \<Rightarrow> (Some e, emit (EvLockfileAdd refs) d)
      | Inr lk \<Rightarrow> (None, emit (EvLockfileAdd refs) (d\<lparr>lockfile := lk\<rparr>)))"

definition lockfileRemove :: "World \<Rightarrow> string list \<Rightarrow> Devbox \<Rightarrow> error option \<times> Devbox" where
  "lockfileRemove env refs d =
     (lockfileRemoveErr env,
      emit (EvLockfileRemove refs)
        (d\<lparr>lockfile := filter (\<lambda>(raw, entry). raw \<notin> set refs) (lockfile d)\<rparr>))"

text \<open>
  Modelled from the spec: the profile store adapter \<open>nixprofile\<close> (\<open>ProfileListItems\<close>,
  \<open>ProfileListIndex\<close>, \<open>ProfileInstall\<close>, \<open>ProfileRemoveItems\<close>) is not among the source
  files. A listing gives every item of the profile with its position; the index of a
  package is that of the first item equal to it, \<open>ErrPackageNotFound\<close> when there is
  none, on the listing handed in or else on a fresh one; an install adds the package
  as the last item and is a no-op on a package already there; a removal takes out
  one item, the one at the given position of the profile as it is at that moment, so
  that the items behind it move up by one, and a position past the end takes out
  nothing; \<open>ProfileRemoveItems\<close> removes the items handed in one after the other, in
  the order given, each by the index it had in the listing it was taken from.
\<close>

definition listing :: "string list \<Rightarrow> NixProfileListItem list" where
  "listing items = map (\<lambda>(i, p). \<lparr>index = i, storePathOrAttr = p\<rparr>) (enumerate 0 items)"

definition ProfileListItems :: "World \<Rightarrow> Devbox \<Rightarrow> (error + NixProfileListItem list) \<times> Devbox" where
  "ProfileListItems env d =
     (case listItemsErr env of
        Some e \<Rightarrow> (Inl e, emit EvProfileListItems d)
      | None \<Rightarrow> (Inr (listing (profile d)), emit EvProfileListItems d))"

definition ProfileListIndex ::
  "World \<Rightarrow> NixProfileListItem list option \<Rightarrow> string \<Rightarrow> Devbox \<Rightarrow> (error + nat) \<times> Devbox" where
  "ProfileListIndex env lst input d =
     (case (case lst of Some items \<Rightarrow> (Inr items, d) | None \<Rightarrow> ProfileListItems env d) of
        (Inl e, d') \<Rightarrow> (Inl e, d')
      | (Inr items, d') \<Rightarrow>
          (case listIndexErr env input of
             Some e \<Rightarrow> (Inl e, d')
           | None \<Rightarrow>
              (case find (\<lambda>item. pkgEquals env (storePathOrAttr item) input) items of
                 None \<Rightarrow> (Inl (Wrap ErrPackageNotFound input), d')
               | Some item \<Rightarrow> (Inr (index item), d'))))"

definition ProfileInstall :: "World \<Rightarrow> string \<Rightarrow> string \<Rightarrow> Devbox \<Rightarrow> error option \<times> Devbox" where
  "ProfileInstall env stepMsg pkg d =
     (case installErr env pkg of
        Some e \<Rightarrow> (Some e, emit (EvProfileInstall stepMsg pkg) d)
      | None \<Rightarrow>
          (None, emit (EvProfileInstall stepMsg pkg)
                   (if \<exists>item \<in> set (profile d). pkgEquals env item pkg then d
                    else d\<lparr>profile := profile d @ [pkg]\<rparr>)))"

definition removeIndex :: "nat \<Rightarrow> string list \<Rightarrow> string list" where
  "removeIndex idx items = take idx items @ drop (Suc idx) items"

text \<open>\<open>nix profile remove --profile profileDir idx\<close>, one store call for one item.\<close>

definition nixProfileRemove :: "World \<Rightarrow> nat \<Rightarrow> Devbox \<Rightarrow> error option \<times> Devbox" where
  "nixProfileRemove env idx d =
     (case removeErr env idx of
        Some e \<Rightarrow> (Some e, emit (EvProfileRemove idx) d)
      | None \<Rightarrow> (None, emit (EvProfileRemove idx) (d\<lparr>profile := removeIndex idx (profile d)\<rparr>)))"

fun ProfileRemoveItems :: "World \<Rightarrow> NixProfileListItem list \<Rightarrow> Devbox \<Rightarrow> error option \<times> Devbox" where
  "ProfileRemoveItems env [] d = (None, d)"
| "ProfileRemoveItems env (item # items) d =
     andThen (nixProfileRemove env (index item) d) (ProfileRemoveItems env items)"

text \<open>
  The remaining collaborators (\<open>shellgen\<close>, \<open>plugin\<close>, \<open>wrapnix\<close>, \<open>computeNixEnv\<close>,
  \<open>saveCfg\<close>) write files the claims do not read: each is a recorded call with its
  outcome; \<open>saveCfg\<close> writes the declared list to \<open>devbox.json\<close>.
\<close>

definition saveCfg :: "World \<Rightarrow> Devbox \<Rightarrow> error option \<times> Devbox" where
  "saveCfg env d =
     (case saveCfgErr env of
        Some e \<Rightarrow> (Some e, emit EvSaveCfg d)
      | None \<Rightarrow> (None, emit EvSaveCfg (d\<lparr>savedCfg := cfg_Packages d\<rparr>)))"

section \<open>internal/impl/packages.go: operations\<close>

text \<open>
  \<open>resetProfileDirForFlakes\<close>: once per process, a profile directory of the older
  format is removed, and the profile is empty from then on. The deferred function
  sets \<open>resetCheckDone\<close> whenever the result is \<open>nil\<close>. \<open>os.Stat\<close> answers
  \<open>fs.ErrNotExist\<close> when there is no \<open>manifest.nix\<close>.
\<close>

definition resetProfileDirForFlakes :: "World \<Rightarrow> Devbox \<Rightarrow> error option \<times> Devbox" where
  "resetProfileDirForFlakes env d =
     (if resetCheckDone d then (None, d)
      else
        (case (case evalSymlinksErr env of
                 Some e \<Rightarrow> (if isErrNotExist e then (None, d) else (Some e, d))
               | None \<Rightarrow>
                   (case (if legacyProfile d then statErr env else Some ErrNotExist) of
                      Some e \<Rightarrow> (if isErrNotExist e then (None, d) else (Some e, d))
                    | None \<Rightarrow>
                        (case osRemoveErr env of
                           Some e \<Rightarrow> (Some e, d)
                         | None \<Rightarrow> (None, d\<lparr>profile := [], legacyProfile := False\<rparr>)))) of
           (None, d') \<Rightarrow> (None, d'\<lparr>resetCheckDone := True\<rparr>)
         | (Some e, d') \<Rightarrow> (Some e, d')))"

text \<open>
  \<open>profilePath\<close>: the error of \<open>resetProfileDirForFlakes\<close> is only logged, so the call
  fails exactly when \<open>os.MkdirAll\<close> does.
\<close>

definition profilePath :: "World \<Rightarrow> Devbox \<Rightarrow> error option \<times> Devbox" where
  "profilePath env d =
     (case resetProfileDirForFlakes env d of (resetErr, d') \<Rightarrow> (mkdirAllErr env, d'))"

text \<open>\<open>pendingPackagesForInstallation\<close>: one listing, then one lookup per declared package.\<close>

fun pendingLoop ::
  "World \<Rightarrow> NixProfileListItem list \<Rightarrow> string list \<Rightarrow> string list \<Rightarrow> Devbox
     \<Rightarrow> (error + string list) \<times> Devbox" where
  "pendingLoop env lst [] pending d = (Inr pending, d)"
| "pendingLoop env lst (input # rest) pending d =
     (case ProfileListIndex env (Some lst) input d of
        (Inl e, d') \<Rightarrow>
          (if \<not> isErrPackageNotFound e then (Inl e, d')
           else pendingLoop env lst rest (pending @ [input]) d')
      | (Inr idx, d') \<Rightarrow> pendingLoop env lst rest pending d')"

definition pendingPackagesForInstallation :: "World \<Rightarrow> Devbox \<Rightarrow> (error + string list) \<times> Devbox" where
  "pendingPackagesForInstallation env d =
     (case profilePath env d of
        (Some e, d0) \<Rightarrow> (Inl e, d0)
      | (None, d0) \<Rightarrow>
          (case ProfileListItems env d0 of
             (Inl e, d') \<Rightarrow> (Inl e, d')
           | (Inr lst, d') \<Rightarrow> pendingLoop env lst (PackagesAsInputs d') [] d'))"

text \<open>\<open>addPackagesToProfile\<close>: prefetch, the pending packages, the message, the install loop.\<close>

fun prefetchLoop :: "World \<Rightarrow> string list \<Rightarrow> Devbox \<Rightarrow> error option \<times> Devbox" where
  "prefetchLoop env [] d = (None, d)"
| "prefetchLoop env (input # rest) d =
     andThen (extCall (EvEnsureNixpkgsPrefetched input) (prefetchErr env input) d)
       (prefetchLoop env rest)"

fun installLoop :: "World \<Rightarrow> nat \<Rightarrow> nat \<Rightarrow> string list \<Rightarrow> Devbox \<Rightarrow> error option \<times> Devbox" where
  "installLoop env totalPkgs idx [] d = (None, d)"
| "installLoop env totalPkgs idx (pkg # rest) d =
     (let stepNum = idx + 1;
          stepMsg = ''['' @ itoa stepNum @ ''/'' @ itoa totalPkgs @ ''] '' @ pkg
      in andThen (ProfileInstall env stepMsg pkg d) (installLoop env totalPkgs (idx + 1) rest))"

definition installingMsg :: "string list \<Rightarrow> string" where
  "installingMsg pkgs =
     (if length pkgs = 1 then ''Installing package: '' @ pkgs ! 0 @ ''.''
      else ''Installing '' @ itoa (length pkgs) @ '' packages: '' @ Join pkgs '', '' @ ''.'')"

definition addPackagesToProfile :: "World \<Rightarrow> installMode \<Rightarrow> Devbox \<Rightarrow> error option \<times> Devbox" where
  "addPackagesToProfile env mode d =
     (if mode = uninstall then (None, d)
      else andThen (prefetchLoop env (PackagesAsInputs d) d) (\<lambda>d1.
        case pendingPackagesForInstallation env d1 of
          (Inl e, d2) \<Rightarrow> (Some e, d2)
        | (Inr pkgs, d2) \<Rightarrow>
            (if length pkgs = 0 then (None, d2)
             else
               (let d3 = emit (EvFprint (newline # installingMsg pkgs @ [newline, newline])) d2
                in case profilePath env d3 of
                     (Some e, d4) \<Rightarrow> (Some e, d4)
                   | (None, d4) \<Rightarrow> installLoop env (length pkgs) 0 pkgs d4))))"

text \<open>\<open>removePackagesFromProfile\<close>: a package whose index is not found is skipped.\<close>

definition skippingMsg :: "string \<Rightarrow> string" where
  "skippingMsg raw = ''Package '' @ raw @ '' not found in profile. Skipping.'' @ [newline]"

fun removeLoop :: "World \<Rightarrow> string list \<Rightarrow> Devbox \<Rightarrow> error option \<times> Devbox" where
  "removeLoop env [] d = (None, d)"
| "removeLoop env (input # rest) d =
     (case ProfileListIndex env None input d of
        (Inl e, d') \<Rightarrow> removeLoop env rest (emit (EvFerror (skippingMsg input)) d')
      | (Inr idx, d') \<Rightarrow> andThen (nixProfileRemove env idx d') (removeLoop env rest))"

definition removePackagesFromProfile :: "World \<Rightarrow> string list \<Rightarrow> Devbox \<Rightarrow> error option \<times> Devbox" where
  "removePackagesFromProfile env pkgs d =
     (case profilePath env d of
        (Some e, d0) \<Rightarrow> (Some e, d0)
      | (None, d0) \<Rightarrow> removeLoop env pkgs d0)"

text \<open>\<open>extraPackagesInProfile\<close> and \<open>tidyProfile\<close>.\<close>

definition extraPackagesInProfile ::
  "World \<Rightarrow> Devbox \<Rightarrow> (error + NixProfileListItem list) \<times> Devbox" where
  "extraPackagesInProfile env d =
     (case profilePath env d of
        (Some e, d0) \<Rightarrow> (Inl e, d0)
      | (None, d0) \<Rightarrow>
          (case ProfileListItems env d0 of
             (Inl e, d') \<Rightarrow> (Inl e, d')
           | (Inr profileItems, d') \<Rightarrow>
               (let devboxInputs = PackagesAsInputs d'
                in if length devboxInputs = length profileItems then (Inr [], d')
                   else (Inr (filter (\<lambda>item. \<not> (\<exists>devboxInput \<in> set devboxInputs.
                                         pkgEquals env (storePathOrAttr item) devboxInput))
                                profileItems), d'))))"

definition tidyProfile :: "World \<Rightarrow> Devbox \<Rightarrow> error option \<times> Devbox" where
  "tidyProfile env d =
     (case extraPackagesInProfile env d of
        (Inl e, d') \<Rightarrow> (Some e, d')
      | (Inr extras, d') \<Rightarrow>
          (case profilePath env d' of
             (Some e, d'') \<Rightarrow> (Some e, d'')
           | (None, d'') \<Rightarrow> ProfileRemoveItems env extras d''))"

definition syncPackagesToProfile :: "World \<Rightarrow> installMode \<Rightarrow> Devbox \<Rightarrow> error option \<times> Devbox" where
  "syncPackagesToProfile env mode d =
     andThen (addPackagesToProfile env mode d) (tidyProfile env)"

text \<open>\<open>ensurePackagesAreInstalled\<close>.\<close>

definition ensurePackagesAreInstalled :: "World \<Rightarrow> installMode \<Rightarrow> Devbox \<Rightarrow> error option \<times> Devbox" where
  "ensurePackagesAreInstalled env mode d =
     (case localLockErr env of
        Some e \<Rightarrow> (Some e, d)
      | None \<Rightarrow>
          (case IsUpToDate env d of
             Inl e \<Rightarrow> (Some e, d)
           | Inr upToDate \<Rightarrow>
               (if upToDate then (None, d)
                else
                  andThen (extCall EvGenerateForPrintEnv (generateErr env) d) (\<lambda>d1.
                  andThen (syncPackagesToProfile env mode
                             (if mode = ensure
                              then emit (EvFprint (''Ensuring packages are installed.'' @ [newline])) d1
                              else d1)) (\<lambda>d2.
                  andThen (extCall EvRemoveInvalidSymlinks (removeInvalidSymlinksErr env) d2) (\<lambda>d3.
                  andThen (extCall EvComputeNixEnv (computeNixEnvErr env) d3) (\<lambda>d4.
                  andThen (Save env (Tidy d4)) (Update env))))))))"

text \<open>\<open>Remove\<close>.\<close>

fun removeScan ::
  "string list \<Rightarrow> string list \<Rightarrow> string list \<Rightarrow> Devbox \<Rightarrow> string list \<times> string list \<times> Devbox" where
  "removeScan [] packagesToUninstall missingPkgs d = (packagesToUninstall, missingPkgs, d)"
| "removeScan (pkg # rest) packagesToUninstall missingPkgs d =
     (let found = findPackageByName d pkg
      in if found \<noteq> []
         then removeScan rest (packagesToUninstall @ [found]) missingPkgs
                (d\<lparr>cfg_Packages := Without (cfg_Packages d) found\<rparr>)
         else removeScan rest packagesToUninstall (missingPkgs @ [pkg]) d)"

definition missingWarning :: "string list \<Rightarrow> string" where
  "missingWarning missingPkgs =
     ''the following packages were not found in your devbox.json: ''
       @ Join missingPkgs '', '' @ [newline]"

definition Remove :: "World \<Rightarrow> string list \<Rightarrow> Devbox \<Rightarrow> error option \<times> Devbox" where
  "Remove env pkgs d =
     (case removeScan (Uniq pkgs) [] [] d of
        (packagesToUninstall, missingPkgs, d1) \<Rightarrow>
          andThen (extCall (EvPluginRemove packagesToUninstall) (pluginRemoveErr env)
                     (if length missingPkgs > 0 then emit (EvFwarning (missingWarning missingPkgs)) d1
                      else d1)) (\<lambda>d2.
          andThen (removePackagesFromProfile env packagesToUninstall d2) (\<lambda>d3.
          andThen (ensurePackagesAreInstalled env uninstall d3) (\<lambda>d4.
          andThen (lockfileRemove env packagesToUninstall d4) (\<lambda>d5.
          andThen (saveCfg env d5) (\<lambda>d6.
          extCall EvCreateWrappers (createWrappersErr env) d6))))))"

text \<open>\<open>Add\<close>: the replacement loop, the validation loop, the install, the bookkeeping.\<close>

fun addLoop ::
  "World \<Rightarrow> string list \<Rightarrow> string list \<Rightarrow> Devbox \<Rightarrow> (error + string list) \<times> Devbox" where
  "addLoop env [] pkgs d = (Inr pkgs, d)"
| "addLoop env (pkg # rest) pkgs d =
     (let versioned = Versioned pkg
      in if versioned \<in> set (cfg_Packages d) then addLoop env rest pkgs d
         else
           (case (let name = findPackageByName d (CanonicalName pkg)
                  in if name \<noteq> [] then Remove env [name] d else (None, d)) of
              (Some e, d') \<Rightarrow> (Inl e, d')
            | (None, d') \<Rightarrow>
                addLoop env rest (pkgs @ [versioned])
                  (d'\<lparr>cfg_Packages := cfg_Packages d' @ [versioned]\<rparr>)))"

fun validateLoop :: "World \<Rightarrow> string list \<Rightarrow> error option" where
  "validateLoop env [] = None"
| "validateLoop env (pkg # rest) =
     (case ValidateExists env pkg of
        Inl e \<Rightarrow> Some e
      | Inr ok \<Rightarrow> (if \<not> ok then Some (Wrap ErrPackageNotFound pkg) else validateLoop env rest))"

fun printReadmeLoop :: "World \<Rightarrow> string list \<Rightarrow> Devbox \<Rightarrow> error option \<times> Devbox" where
  "printReadmeLoop env [] d = (None, d)"
| "printReadmeLoop env (input # rest) d =
     andThen (extCall (EvPrintReadme input) (printReadmeErr env input) d) (printReadmeLoop env rest)"

definition Add :: "World \<Rightarrow> string list \<Rightarrow> Devbox \<Rightarrow> error option \<times> Devbox" where
  "Add env pkgsNames d =
     (case addLoop env (Uniq pkgsNames) [] d of
        (Inl e, d1) \<Rightarrow> (Some e, d1)
      | (Inr pkgs, d1) \<Rightarrow>
          (case validateLoop env pkgs of
             Some e \<Rightarrow> (Some e, d1)
           | None \<Rightarrow>
               (case ensurePackagesAreInstalled env install d1 of
                  (Some e, d2) \<Rightarrow>
                    (Some (WithUserMessage e ''There was an error installing nix packages''), d2)
                | (None, d2) \<Rightarrow>
                    andThen (saveCfg env d2) (\<lambda>d3.
                    andThen (printReadmeLoop env pkgs d3) (\<lambda>d4.
                    andThen (lockfileAdd env pkgs d4) (\<lambda>d5.
                    extCall EvCreateWrappers (createWrappersErr env) d5))))))"

section \<open>Observations and example states\<close>

text \<open>The packages handed to \<open>ProfileInstall\<close>, in call order.\<close>

fun installsOf :: "event list \<Rightarrow> string list" where
  "installsOf [] = []"
| "installsOf (EvProfileInstall stepMsg pkg # evs) = pkg # installsOf evs"
| "installsOf (ev # evs) = installsOf evs"

text \<open>
  Calls of the store phase: output on the writer, prefetches, and listings, installs
  and removals on the profile. A store step changes nothing of the session but the
  profile, its directory, \<open>resetCheckDone\<close> and the record of calls, and records
  store-phase calls only.
\<close>

fun isStoreEvent :: "event \<Rightarrow> bool" where
  "isStoreEvent (EvFprint msg) = True"
| "isStoreEvent (EvFerror msg) = True"
| "isStoreEvent (EvEnsureNixpkgsPrefetched pkg) = True"
| "isStoreEvent EvProfileListItems = True"
| "isStoreEvent (EvProfileInstall stepMsg pkg) = True"
| "isStoreEvent (EvProfileRemove idx) = True"
| "isStoreEvent ev = False"

definition storeStep :: "Devbox \<Rightarrow> Devbox \<Rightarrow> bool" where
  "storeStep d d' \<longleftrightarrow>
     d' = d\<lparr>profile := profile d', legacyProfile := legacyProfile d',
            resetCheckDone := resetCheckDone d', events := events d'\<rparr>
     \<and> (\<exists>evs. events d' = events d @ evs \<and> list_all isStoreEvent evs)"

text \<open>
  A step of the removal flow shrinks: the declared list is left alone, the profile
  and the lockfile lose entries at most, and the calls it records contain no install
  and no warning.
\<close>

fun isFwarning :: "event \<Rightarrow> bool" where
  "isFwarning (EvFwarning msg) = True"
| "isFwarning ev = False"

definition shrinks :: "Devbox \<Rightarrow> Devbox \<Rightarrow> bool" where
  "shrinks d d' \<longleftrightarrow>
     cfg_Packages d' = cfg_Packages d
     \<and> set (profile d') \<subseteq> set (profile d)
     \<and> set (lockfile d') \<subseteq> set (lockfile d)
     \<and> (\<exists>evs. events d' = events d @ evs \<and> installsOf evs = [] \<and> \<not> list_ex isFwarning evs)"

text \<open>
  The state \<open>profilePath\<close> hands on, and the sessions on which it has nothing left to
  do: the check is done, or it fails again on every call.
\<close>

definition reset :: "World \<Rightarrow> Devbox \<Rightarrow> Devbox" where
  "reset env d = snd (resetProfileDirForFlakes env d)"

definition quiet :: "World \<Rightarrow> Devbox \<Rightarrow> bool" where
  "quiet env d \<longleftrightarrow> resetCheckDone d \<or> fst (resetProfileDirForFlakes env d) \<noteq> None"

text \<open>
  A profile without extras: every item equals a declared package. A step adds only
  when it leaves the declared list alone, makes no call of \<open>nix profile remove\<close>,
  and, for the profile as the reset of the profile directory leaves it, keeps every
  item and keeps it without extras.
\<close>

definition declaredOnly :: "World \<Rightarrow> Devbox \<Rightarrow> bool" where
  "declaredOnly env d \<longleftrightarrow>
     (\<forall>item\<in>set (profile d). \<exists>q\<in>set (cfg_Packages d). pkgEquals env item q)"

definition addsOnly :: "World \<Rightarrow> Devbox \<Rightarrow> Devbox \<Rightarrow> bool" where
  "addsOnly env d d' \<longleftrightarrow>
     cfg_Packages d' = cfg_Packages d
     \<and> set (profile (reset env d)) \<subseteq> set (profile (reset env d'))
     \<and> (\<exists>evs. events d' = events d @ evs \<and> (\<forall>idx. EvProfileRemove idx \<notin> set evs))
     \<and> (declaredOnly env (reset env d) \<longrightarrow> declaredOnly env (reset env d'))"

text \<open>The steps of \<open>Remove\<close> that follow the lookup of the names and the warning.\<close>

definition uninstallTail :: "World \<Rightarrow> string list \<Rightarrow> Devbox \<Rightarrow> error option \<times> Devbox" where
  "uninstallTail env packagesToUninstall d =
     andThen (extCall (EvPluginRemove packagesToUninstall) (pluginRemoveErr env) d) (\<lambda>d2.
     andThen (removePackagesFromProfile env packagesToUninstall d2) (\<lambda>d3.
     andThen (ensurePackagesAreInstalled env uninstall d3) (\<lambda>d4.
     andThen (lockfileRemove env packagesToUninstall d4) (\<lambda>d5.
     andThen (saveCfg env d5) (\<lambda>d6.
     extCall EvCreateWrappers (createWrappersErr env) d6)))))"

text \<open>The same session with earlier calls put in front of its record of calls.\<close>

definition withEarlier :: "event list \<Rightarrow> Devbox \<Rightarrow> Devbox" where
  "withEarlier es d = d\<lparr>events := es @ events d\<rparr>"

text \<open>
  A world in which every external call succeeds, every package exists, and the store
  identity of a reference is the reference itself.
\<close>

definition calmWorld :: World where
  "calmWorld =
     \<lparr>storeIdentity = (\<lambda>p. p), ValidateExists = (\<lambda>p. Inr True), resolve = (\<lambda>p. Some p),
      localLockErr = None, isUpToDateErr = None, generateErr = None,
      prefetchErr = (\<lambda>p. None), evalSymlinksErr = None, statErr = None,
      osRemoveErr = None, mkdirAllErr = None, listItemsErr = None,
      listIndexErr = (\<lambda>p. None), installErr = (\<lambda>p. None), removeErr = (\<lambda>idx. None),
      removeInvalidSymlinksErr = None, computeNixEnvErr = None, lockfileSaveErr = None,
      lockfileRemoveErr = None, localLockUpdateErr = None, saveCfgErr = None,
      pluginRemoveErr = None, printReadmeErr = (\<lambda>p. None), createWrappersErr = None\<rparr>"

text \<open>A converged project: two packages declared, locked, installed, and the cache current.\<close>

definition settled :: Devbox where
  "settled =
     \<lparr>cfg_Packages = [''a@1'', ''b@2''], savedCfg = [''a@1'', ''b@2''],
      lockfile = [(''a@1'', ''a@1''), (''b@2'', ''b@2'')],
      savedLockfile = [(''a@1'', ''a@1''), (''b@2'', ''b@2'')],
      localLock = Some ([''a@1'', ''b@2''], [(''a@1'', ''a@1''), (''b@2'', ''b@2'')]),
      profile = [''a@1'', ''b@2''], legacyProfile = False,
      resetCheckDone = False, events = []\<rparr>"

text \<open>
  The swap scenario: one package declared, a different one in the profile, and no
  local state cache.
\<close>

definition swapped :: Devbox where
  "swapped =
     \<lparr>cfg_Packages = [''a@1''], savedCfg = [''a@1''],
      lockfile = [(''a@1'', ''a@1'')], savedLockfile = [(''a@1'', ''a@1'')],
      localLock = None, profile = [''b@2''], legacyProfile = False,
      resetCheckDone = False, events = []\<rparr>"



text \<open>
  After \<open>a@1\<close> was taken out of the manifest and out of the profile: the lockfile
  and the cache still know it.
\<close>

definition dropped :: Devbox where
  "dropped =
     \<lparr>cfg_Packages = [''b@2''], savedCfg = [''b@2''],
      lockfile = [(''a@1'', ''a@1''), (''b@2'', ''b@2'')],
      savedLockfile = [(''a@1'', ''a@1''), (''b@2'', ''b@2'')],
      localLock = Some ([''a@1'', ''b@2''], [(''a@1'', ''a@1''), (''b@2'', ''b@2'')]),
      profile = [''b@2''], legacyProfile = False,
      resetCheckDone = False, events = []\<rparr>"

text \<open>The same project after a reconciliation that tidied and saved the lockfile.\<close>

definition reconciled :: Devbox where
  "reconciled =
     dropped\<lparr>lockfile := [(''b@2'', ''b@2'')], savedLockfile := [(''b@2'', ''b@2'')],
             localLock := Some ([''b@2''], [(''b@2'', ''b@2'')]), resetCheckDone := True,
             events := [EvGenerateForPrintEnv, EvProfileListItems, EvRemoveInvalidSymlinks,
                        EvComputeNixEnv, EvLockfileTidy, EvLockfileSave, EvLocalLockUpdate]\<rparr>"

text \<open>
  A project whose manifest declares \<open>a@1\<close> while the profile also holds \<open>b@2\<close>, and
  no local state cache.
\<close>

definition leftover :: Devbox where
  "leftover =
     \<lparr>cfg_Packages = [''a@1''], savedCfg = [''a@1''],
      lockfile = [(''a@1'', ''a@1'')], savedLockfile = [(''a@1'', ''a@1'')],
      localLock = None, profile = [''a@1'', ''b@2''], legacyProfile = False,
      resetCheckDone = False, events = []\<rparr>"

text \<open>The same project after a reconciliation that removed \<open>b@2\<close> at index 1.\<close>

definition leftoverTidied :: Devbox where
  "leftoverTidied =
     leftover\<lparr>localLock := Some ([''a@1''], [(''a@1'', ''a@1'')]), profile := [''a@1''],
              resetCheckDone := True,
              events := [EvGenerateForPrintEnv, EvEnsureNixpkgsPrefetched ''a@1'',
                         EvProfileListItems, EvProfileListItems, EvProfileRemove 1,
                         EvRemoveInvalidSymlinks, EvComputeNixEnv, EvLockfileTidy,
                         EvLockfileSave, EvLocalLockUpdate]\<rparr>"





text \<open>An empty project, and a world in which one package does not exist.\<close>

definition blank :: Devbox where
  "blank =
     \<lparr>cfg_Packages = [], savedCfg = [], lockfile = [], savedLockfile = [],
      localLock = None, profile = [], legacyProfile = False,
      resetCheckDone = False, events = []\<rparr>"

definition lacking :: "string \<Rightarrow> World" where
  "lacking pkg = calmWorld\<lparr>ValidateExists := (\<lambda>p. Inr (p \<noteq> pkg))\<rparr>"

section \<open>Properties of the session listing\<close>

lemma hasPrefix_iff: "hasPrefix s p \<longleftrightarrow> (\<exists>b. s = p @ b)"
  by (induction s p rule: hasPrefix.induct) auto

lemma Contains_iff: "Contains s n \<longleftrightarrow> (\<exists>a b. s = a @ n @ b)"
proof (induction s)
  case Nil
  then show ?case by simp
next
  case (Cons c cs)
  show ?case
  proof
    assume "Contains (c # cs) n"
    then consider "hasPrefix (c # cs) n" | "Contains cs n" by auto
    then show "\<exists>a b. c # cs = a @ n @ b"
    proof cases
      case 1
      then obtain b where "c # cs = n @ b" by (auto simp: hasPrefix_iff)
      then have "c # cs = [] @ n @ b" by simp
      then show ?thesis by blast
    next
      case 2
      then obtain a b where "cs = a @ n @ b" using Cons.IH by blast
      then have "c # cs = (c # a) @ n @ b" by simp
      then show ?thesis by blast
    qed
  next
    assume "\<exists>a b. c # cs = a @ n @ b"
    then obtain a b where ab: "c # cs = a @ n @ b" by blast
    show "Contains (c # cs) n"
    proof (cases a)
      case Nil
      with ab have "hasPrefix (c # cs) n" by (auto simp: hasPrefix_iff)
      then show ?thesis by simp
    next
      case (Cons a0 as)
      with ab have "cs = as @ n @ b" by simp
      then have "Contains cs n" using Cons.IH by blast
      then show ?thesis by simp
    qed
  qed
qed

text \<open>
  A block that starts with a character that does not occur in \<open>pre\<close> occurs in
  \<open>pre @ m\<close> exactly when it occurs in \<open>m\<close>; the same at the other end.
\<close>

lemma block_after_prefix:
  assumes "n \<noteq> []" "hd n \<notin> set pre"
  shows "(\<exists>a b. pre @ m = a @ n @ b) \<longleftrightarrow> (\<exists>a b. m = a @ n @ b)"
proof
  assume "\<exists>a b. pre @ m = a @ n @ b"
  then obtain a b where ab: "pre @ m = a @ n @ b" by blast
  then consider us where "pre = a @ us" "us @ m = n @ b" | us where "pre @ us = a" "m = us @ n @ b"
    by (auto simp: append_eq_append_conv2)
  then show "\<exists>a b. m = a @ n @ b"
  proof cases
    case 1
    show ?thesis
    proof (cases us)
      case Nil
      with 1 have "m = [] @ n @ b" by simp
      then show ?thesis by blast
    next
      case (Cons u us')
      with 1 assms(1) have "hd n = u" by (cases n) auto
      with 1 Cons assms(2) show ?thesis by simp
    qed
  next
    case 2
    then show ?thesis by blast
  qed
next
  assume "\<exists>a b. m = a @ n @ b"
  then obtain a b where "m = a @ n @ b" by blast
  then have "pre @ m = (pre @ a) @ n @ b" by simp
  then show "\<exists>a b. pre @ m = a @ n @ b" by blast
qed

lemma rev_block: "(\<exists>a b. rev s = a @ rev n @ b) \<longleftrightarrow> (\<exists>a b. s = a @ n @ b)"
proof
  assume "\<exists>a b. rev s = a @ rev n @ b"
  then obtain a b where "rev s = a @ rev n @ b" by blast
  then have "rev (rev s) = rev (a @ rev n @ b)" by simp
  then have "s = rev b @ n @ rev a" by simp
  then show "\<exists>a b. s = a @ n @ b" by blast
next
  assume "\<exists>a b. s = a @ n @ b"
  then obtain a b where "s = a @ n @ b" by blast
  then have "rev s = rev b @ rev n @ rev a" by simp
  then show "\<exists>a b. rev s = a @ rev n @ b" by blast
qed

lemma block_before_suffix:
  assumes "n \<noteq> []" "last n \<notin> set suf"
  shows "(\<exists>a b. m @ suf = a @ n @ b) \<longleftrightarrow> (\<exists>a b. m = a @ n @ b)"
proof -
  have "(\<exists>a b. m @ suf = a @ n @ b) \<longleftrightarrow> (\<exists>a b. rev suf @ rev m = a @ rev n @ b)"
    using rev_block[of "m @ suf" n] by simp
  also have "\<dots> \<longleftrightarrow> (\<exists>a b. rev m = a @ rev n @ b)"
    using block_after_prefix[of "rev n" "rev suf" "rev m"] assms by (simp add: hd_rev)
  also have "\<dots> \<longleftrightarrow> (\<exists>a b. m = a @ n @ b)"
    by (rule rev_block)
  finally show ?thesis .
qed

text \<open>What \<open>trimPrefixes\<close> cuts is a run of blocks, and no block stands at the front of what it leaves.\<close>

lemma trimPrefixes_decomp:
  "\<exists>es. set es \<subseteq> set blocks \<and> s = concat es @ trimPrefixes blocks s"
proof (induction blocks s rule: trimPrefixes.induct)
  case (1 blocks s)
  show ?case
  proof (cases "find (\<lambda>e. e \<noteq> [] \<and> hasPrefix s e) blocks")
    case None
    then have "trimPrefixes blocks s = s" by (simp add: trimPrefixes.simps)
    then have "set [] \<subseteq> set blocks \<and> s = concat [] @ trimPrefixes blocks s" by simp
    then show ?thesis by blast
  next
    case (Some e)
    then have e: "e \<in> set blocks" "hasPrefix s e"
      by (auto simp: find_Some_iff)
    from Some have t: "trimPrefixes blocks s = trimPrefixes blocks (drop (length e) s)"
      by (simp add: trimPrefixes.simps)
    from 1[OF Some] obtain es where
      es: "set es \<subseteq> set blocks" "drop (length e) s = concat es @ trimPrefixes blocks (drop (length e) s)"
      by blast
    from e(2) have "s = e @ drop (length e) s" by (auto simp: hasPrefix_iff)
    with es(2) t have "s = concat (e # es) @ trimPrefixes blocks s" by simp
    moreover from e(1) es(1) have "set (e # es) \<subseteq> set blocks" by simp
    ultimately show ?thesis by blast
  qed
qed

lemma trimPrefixes_done:
  "e \<in> set blocks \<Longrightarrow> e \<noteq> [] \<Longrightarrow> \<not> hasPrefix (trimPrefixes blocks s) e"
proof (induction blocks s rule: trimPrefixes.induct)
  case (1 blocks s)
  show ?case
  proof (cases "find (\<lambda>e. e \<noteq> [] \<and> hasPrefix s e) blocks")
    case None
    then have "trimPrefixes blocks s = s" by (simp add: trimPrefixes.simps)
    with None 1(2,3) show ?thesis by (auto simp: find_None_iff)
  next
    case (Some e')
    then have "trimPrefixes blocks s = trimPrefixes blocks (drop (length e') s)"
      by (simp add: trimPrefixes.simps)
    with 1(1)[OF Some 1(2,3)] show ?thesis by simp
  qed
qed

lemma whiteSpace_nonempty: "w \<in> set whiteSpace \<Longrightarrow> w \<noteq> []"
  by (auto simp: whiteSpace_def)

lemma TrimLeftSpace_decomp:
  "\<exists>front. set front \<subseteq> set whiteSpace \<and> s = concat front @ TrimLeftSpace s"
  unfolding TrimLeftSpace_def by (rule trimPrefixes_decomp)

lemma TrimRightSpace_decomp:
  "\<exists>rear. set rear \<subseteq> set whiteSpace \<and> s = TrimRightSpace s @ concat rear"
proof -
  from trimPrefixes_decomp[of "map rev whiteSpace" "rev s"] obtain es where
    es: "set es \<subseteq> set (map rev whiteSpace)"
        "rev s = concat es @ trimPrefixes (map rev whiteSpace) (rev s)"
    by blast
  from es(2) have "rev (rev s) = rev (concat es @ trimPrefixes (map rev whiteSpace) (rev s))"
    by simp
  then have "s = TrimRightSpace s @ concat (map rev (rev es))"
    by (simp add: TrimRightSpace_def rev_concat)
  moreover from es(1) have "set (map rev (rev es)) \<subseteq> set whiteSpace"
    by auto
  ultimately show ?thesis by blast
qed

lemma TrimSpace_decomp:
  "\<exists>front rear. set front \<subseteq> set whiteSpace \<and> set rear \<subseteq> set whiteSpace
     \<and> s = concat front @ TrimSpace s @ concat rear"
proof -
  from TrimLeftSpace_decomp[of s] obtain front where
    f: "set front \<subseteq> set whiteSpace" "s = concat front @ TrimLeftSpace s" by blast
  from TrimRightSpace_decomp[of "TrimLeftSpace s"] obtain rear where
    b: "set rear \<subseteq> set whiteSpace" "TrimLeftSpace s = TrimSpace s @ concat rear"
    by (auto simp: TrimSpace_def)
  from f(2) b(2) have "s = concat front @ TrimSpace s @ concat rear" by simp
  with f(1) b(1) show ?thesis by blast
qed

lemma TrimSpace_ends:
  assumes "w \<in> set whiteSpace"
  shows "\<not> hasPrefix (TrimSpace s) w" and "\<not> hasPrefix (rev (TrimSpace s)) (rev w)"
proof -
  have w: "w \<noteq> []" using assms by (rule whiteSpace_nonempty)
  from TrimRightSpace_decomp[of "TrimLeftSpace s"] obtain rear where
    "TrimLeftSpace s = TrimSpace s @ concat rear"
    by (auto simp: TrimSpace_def)
  then have "hasPrefix (TrimSpace s) w \<Longrightarrow> hasPrefix (TrimLeftSpace s) w"
    by (auto simp: hasPrefix_iff)
  moreover have "\<not> hasPrefix (TrimLeftSpace s) w"
    unfolding TrimLeftSpace_def using assms w by (rule trimPrefixes_done)
  ultimately show "\<not> hasPrefix (TrimSpace s) w" by blast
  have "rev w \<in> set (map rev whiteSpace)" "rev w \<noteq> []" using assms w by simp_all
  then have "\<not> hasPrefix (trimPrefixes (map rev whiteSpace) (rev (TrimLeftSpace s))) (rev w)"
    by (rule trimPrefixes_done)
  then show "\<not> hasPrefix (rev (TrimSpace s)) (rev w)"
    by (simp add: TrimSpace_def TrimRightSpace_def)
qed

text \<open>
  Cutting white space off both ends of a string neither creates nor destroys an
  occurrence of a block whose first and last character occur in no white space.
\<close>

lemma Contains_TrimSpace:
  assumes "n \<noteq> []" "hd n \<notin> \<Union> (set ` set whiteSpace)" "last n \<notin> \<Union> (set ` set whiteSpace)"
  shows "Contains (TrimSpace s) n \<longleftrightarrow> Contains s n"
proof -
  from TrimSpace_decomp[of s] obtain front rear where
    fb: "set front \<subseteq> set whiteSpace" "set rear \<subseteq> set whiteSpace"
        "s = concat front @ TrimSpace s @ concat rear" by blast
  from fb(1) assms(2) have f: "hd n \<notin> set (concat front)" by auto
  from fb(2) assms(3) have b: "last n \<notin> set (concat rear)" by auto
  have "Contains s n \<longleftrightarrow> (\<exists>a b. concat front @ (TrimSpace s @ concat rear) = a @ n @ b)"
    using fb(3) by (simp add: Contains_iff)
  also have "\<dots> \<longleftrightarrow> (\<exists>a b. TrimSpace s @ concat rear = a @ n @ b)"
    using assms(1) f by (rule block_after_prefix)
  also have "\<dots> \<longleftrightarrow> (\<exists>a b. TrimSpace s = a @ n @ b)"
    using assms(1) b by (rule block_before_suffix)
  finally show ?thesis by (simp add: Contains_iff)
qed

lemma noSessionsFound_ends:
  "noSessionsFound \<noteq> []" "hd noSessionsFound \<notin> \<Union> (set ` set whiteSpace)"
  "last noSessionsFound \<notin> \<Union> (set ` set whiteSpace)"
  by (simp_all add: noSessionsFound_def whiteSpace_def)

text \<open>
  C9. When the sync tool exits non-zero, \<open>List\<close> returns an error whose message is
  exactly the trimmed combined output, except that an output containing
  \<open>unable to locate requested sessions\<close> gives the empty session list and no error.
  The trimmed output is the output without the white space at its two ends, Unicode
  white space included: the output is a run of white-space characters, the trimmed
  output, and a run of white-space characters, and no white-space character stands
  at either end of the trimmed output. The code looks for the diagnostic in the
  trimmed output; that is the same as looking for it in the output itself.
\<close>

theorem List_nonzero_exit:
  "err res = Some ExitError \<Longrightarrow>
     List unmarshal res =
       (if Contains (out res) noSessionsFound then Inr []
        else Inl (ErrorsNew (TrimSpace (out res))))
     \<and> Contains (TrimSpace (out res)) noSessionsFound = Contains (out res) noSessionsFound
     \<and> (\<exists>front rear. set front \<subseteq> set whiteSpace \<and> set rear \<subseteq> set whiteSpace
           \<and> out res = concat front @ TrimSpace (out res) @ concat rear)
     \<and> (\<forall>w\<in>set whiteSpace. \<not> hasPrefix (TrimSpace (out res)) w
                               \<and> \<not> hasPrefix (rev (TrimSpace (out res))) (rev w))"
  using Contains_TrimSpace[of noSessionsFound "out res"] noSessionsFound_ends
        TrimSpace_decomp[of "out res"] TrimSpace_ends[of _ "out res"]
  by (simp add: List_def)

text \<open>
  An output that starts with a no-break space (U+00A0) and an em space (U+2003) and
  ends with a space, a next-line character (U+0085) and a line feed.
\<close>

theorem List_nonzero_exit_witness:
  "err \<lparr>out = [CHR 0xC2, CHR 0xA0, CHR 0xE2, CHR 0x80, CHR 0x83] @ ''Error: boom''
                 @ [CHR 0x20, CHR 0xC2, CHR 0x85, CHR 0x0A], err = Some ExitError\<rparr> = Some ExitError
   \<and> List (\<lambda>s. Inr [0::nat])
       \<lparr>out = [CHR 0xC2, CHR 0xA0, CHR 0xE2, CHR 0x80, CHR 0x83] @ ''Error: boom''
                 @ [CHR 0x20, CHR 0xC2, CHR 0x85, CHR 0x0A], err = Some ExitError\<rparr>
       = Inl (ErrorsNew ''Error: boom'')
   \<and> List (\<lambda>s. Inr [0::nat])
       \<lparr>out = ''Error: unable to locate requested sessions'' @ [CHR 0x0A], err = Some ExitError\<rparr>
       = Inr []"
proof -
  have t: "TrimSpace ([CHR 0xC2, CHR 0xA0, CHR 0xE2, CHR 0x80, CHR 0x83] @ ''Error: boom''
                        @ [CHR 0x20, CHR 0xC2, CHR 0x85, CHR 0x0A]) = ''Error: boom''"
    by code_simp
  have c: "\<not> Contains ([CHR 0xC2, CHR 0xA0, CHR 0xE2, CHR 0x80, CHR 0x83] @ ''Error: boom''
                        @ [CHR 0x20, CHR 0xC2, CHR 0x85, CHR 0x0A]) noSessionsFound"
    "Contains (''Error: unable to locate requested sessions'' @ [CHR 0x0A]) noSessionsFound"
    by code_simp+
  show ?thesis
    using List_nonzero_exit[of "\<lparr>out = [CHR 0xC2, CHR 0xA0, CHR 0xE2, CHR 0x80, CHR 0x83]
                                        @ ''Error: boom'' @ [CHR 0x20, CHR 0xC2, CHR 0x85, CHR 0x0A],
                                 err = Some ExitError\<rparr>" "\<lambda>s. Inr [0::nat]"]
          List_nonzero_exit[of "\<lparr>out = ''Error: unable to locate requested sessions'' @ [CHR 0x0A],
                                 err = Some ExitError\<rparr>" "\<lambda>s. Inr [0::nat]"]
          t c
    by simp
qed
section \<open>Properties of the profile directory reset\<close>

lemma resetProfileDirForFlakes_result:
  "(\<exists>e. resetProfileDirForFlakes env d = (Some e, d) \<and> \<not> resetCheckDone d)
   \<or> (resetProfileDirForFlakes env d = (None, d) \<and> resetCheckDone d)
   \<or> (resetProfileDirForFlakes env d = (None, d\<lparr>resetCheckDone := True\<rparr>) \<and> \<not> resetCheckDone d)
   \<or> (resetProfileDirForFlakes env d
          = (None, d\<lparr>profile := [], legacyProfile := False, resetCheckDone := True\<rparr>)
        \<and> \<not> resetCheckDone d \<and> legacyProfile d)"
  by (cases "evalSymlinksErr env"; cases "statErr env"; cases "osRemoveErr env")
     (simp_all add: resetProfileDirForFlakes_def)

lemma resetProfileDirForFlakes_cases:
  obtains (kept) e where "resetProfileDirForFlakes env d = (Some e, d)" "\<not> resetCheckDone d"
  | (done_before) "resetProfileDirForFlakes env d = (None, d)" "resetCheckDone d"
  | (checked) "resetProfileDirForFlakes env d = (None, d\<lparr>resetCheckDone := True\<rparr>)"
      "\<not> resetCheckDone d"
  | (removed) "resetProfileDirForFlakes env d
                 = (None, d\<lparr>profile := [], legacyProfile := False, resetCheckDone := True\<rparr>)"
      "\<not> resetCheckDone d" "legacyProfile d"
  using resetProfileDirForFlakes_result[of env d] by blast

lemma profilePath_eq: "profilePath env d = (mkdirAllErr env, reset env d)"
  by (simp add: profilePath_def reset_def split: prod.splits)

lemma reset_cases:
  "reset env d = d \<or> reset env d = d\<lparr>resetCheckDone := True\<rparr>
   \<or> reset env d = d\<lparr>profile := [], legacyProfile := False, resetCheckDone := True\<rparr>"
  by (cases env d rule: resetProfileDirForFlakes_cases) (simp_all add: reset_def)

lemma quiet_cong:
  "resetCheckDone d' = resetCheckDone d \<Longrightarrow> legacyProfile d' = legacyProfile d
     \<Longrightarrow> quiet env d' = quiet env d"
  by (simp add: quiet_def resetProfileDirForFlakes_def split: option.splits)

lemma reset_quiet: "quiet env d \<Longrightarrow> reset env d = d"
  by (cases env d rule: resetProfileDirForFlakes_cases) (simp_all add: reset_def quiet_def)

lemma quiet_reset: "quiet env (reset env d)"
  by (cases env d rule: resetProfileDirForFlakes_cases)
     (simp_all add: reset_def quiet_def resetProfileDirForFlakes_def)

lemma quiet_flag: "resetCheckDone d \<Longrightarrow> quiet env d"
  by (simp add: quiet_def)

lemma reset_current: "resetCheckDone d \<or> \<not> legacyProfile d \<Longrightarrow> profile (reset env d) = profile d"
  by (cases env d rule: resetProfileDirForFlakes_cases) (auto simp: reset_def)

lemma reset_fields:
  "cfg_Packages (reset env d) = cfg_Packages d" "savedCfg (reset env d) = savedCfg d"
  "lockfile (reset env d) = lockfile d" "savedLockfile (reset env d) = savedLockfile d"
  "localLock (reset env d) = localLock d" "events (reset env d) = events d"
  using reset_cases[of env d] by auto

lemma reset_profile: "set (profile (reset env d)) \<subseteq> set (profile d)"
  using reset_cases[of env d] by auto

lemma quiet_emit: "quiet env (emit ev d) = quiet env d"
  by (rule quiet_cong) (simp_all add: emit_def)

section \<open>Properties of the reconciliation\<close>

text \<open>
  C3. Fast path: in every mode, when the local state cache reports up to date,
  \<open>ensurePackagesAreInstalled\<close> returns success at once and hands back the session
  unchanged: no call on the store, nothing installed or removed, lockfile and cache
  as they were.
\<close>

theorem fast_path:
  "localLockErr env = None \<Longrightarrow> IsUpToDate env d = Inr True \<Longrightarrow>
     ensurePackagesAreInstalled env mode d = (None, d)"
  by (simp add: ensurePackagesAreInstalled_def)

theorem fast_path_witness:
  "localLockErr calmWorld = None \<and> IsUpToDate calmWorld settled = Inr True
   \<and> ensurePackagesAreInstalled calmWorld ensure settled = (None, settled)"
  using fast_path[of calmWorld settled ensure]
  by (simp add: calmWorld_def settled_def IsUpToDate_def)

text \<open>
  C4. Extras shortcut: whenever the listing has as many items as there are declared
  packages, \<open>extraPackagesInProfile\<close> returns no extras, whether or not the two sets
  coincide, and \<open>tidyProfile\<close> then removes nothing.
\<close>

theorem extras_shortcut:
  "profilePath env d = (None, d1) \<Longrightarrow> ProfileListItems env d1 = (Inr profileItems, d') \<Longrightarrow>
   length (PackagesAsInputs d') = length profileItems \<Longrightarrow>
     extraPackagesInProfile env d = (Inr [], d')
     \<and> tidyProfile env d = (None, d') \<and> profile d' = profile d1
     \<and> (resetCheckDone d \<or> \<not> legacyProfile d \<longrightarrow> profile d' = profile d)"
proof -
  assume p: "profilePath env d = (None, d1)"
    and l: "ProfileListItems env d1 = (Inr profileItems, d')"
    and n: "length (PackagesAsInputs d') = length profileItems"
  from p have d1: "d1 = reset env d" "mkdirAllErr env = None"
    by (simp_all add: profilePath_eq)
  from l have d': "d' = emit EvProfileListItems d1"
    by (auto simp: ProfileListItems_def split: option.splits)
  have "quiet env d'"
    unfolding d' d1 by (simp add: quiet_emit quiet_reset)
  then have again: "profilePath env d' = (None, d')"
    using d1(2) by (simp add: profilePath_eq reset_quiet)
  from p l n have extras: "extraPackagesInProfile env d = (Inr [], d')"
    by (simp add: extraPackagesInProfile_def)
  then have "tidyProfile env d = (None, d')"
    using again by (simp add: tidyProfile_def)
  moreover have "profile d' = profile d1"
    unfolding d' by (simp add: emit_def)
  moreover have "resetCheckDone d \<or> \<not> legacyProfile d \<longrightarrow> profile d' = profile d"
    unfolding d' d1 using reset_current[of d env] by (auto simp: emit_def)
  ultimately show ?thesis using extras by simp
qed

theorem extras_shortcut_witness:
  "profilePath calmWorld swapped = (None, swapped\<lparr>resetCheckDone := True\<rparr>)
   \<and> ProfileListItems calmWorld (swapped\<lparr>resetCheckDone := True\<rparr>)
       = (Inr [\<lparr>index = 0, storePathOrAttr = ''b@2''\<rparr>],
          emit EvProfileListItems (swapped\<lparr>resetCheckDone := True\<rparr>))
   \<and> length (PackagesAsInputs (emit EvProfileListItems (swapped\<lparr>resetCheckDone := True\<rparr>)))
       = length [\<lparr>index = 0, storePathOrAttr = ''b@2''\<rparr>]
   \<and> extraPackagesInProfile calmWorld swapped
       = (Inr [], emit EvProfileListItems (swapped\<lparr>resetCheckDone := True\<rparr>))
   \<and> tidyProfile calmWorld swapped
       = (None, emit EvProfileListItems (swapped\<lparr>resetCheckDone := True\<rparr>))
   \<and> profile (emit EvProfileListItems (swapped\<lparr>resetCheckDone := True\<rparr>)) = [''b@2'']
   \<and> cfg_Packages (emit EvProfileListItems (swapped\<lparr>resetCheckDone := True\<rparr>)) = [''a@1'']"
  using extras_shortcut[of calmWorld swapped "swapped\<lparr>resetCheckDone := True\<rparr>"
          "[\<lparr>index = 0, storePathOrAttr = ''b@2''\<rparr>]"
          "emit EvProfileListItems (swapped\<lparr>resetCheckDone := True\<rparr>)"]
  by (simp add: calmWorld_def swapped_def profilePath_def resetProfileDirForFlakes_def
        ProfileListItems_def listing_def PackagesAsInputs_def emit_def)
section \<open>Store steps\<close>

lemma installsOf_append: "installsOf (xs @ ys) = installsOf xs @ installsOf ys"
  by (induction xs rule: installsOf.induct) auto

lemma storeStep_iff:
  "storeStep d d' \<longleftrightarrow>
     cfg_Packages d' = cfg_Packages d \<and> savedCfg d' = savedCfg d \<and> lockfile d' = lockfile d
     \<and> savedLockfile d' = savedLockfile d \<and> localLock d' = localLock d
     \<and> (\<exists>evs. events d' = events d @ evs \<and> list_all isStoreEvent evs)"
  by (cases d; cases d') (auto simp: storeStep_def)

lemma storeStep_refl: "storeStep d d"
  by (simp add: storeStep_iff)

lemma storeStep_trans: "storeStep a b \<Longrightarrow> storeStep b c \<Longrightarrow> storeStep a c"
  by (auto simp: storeStep_iff)

lemma storeStep_emit: "isStoreEvent ev \<Longrightarrow> storeStep d (emit ev d)"
  by (simp add: storeStep_iff emit_def)

lemma storeStep_reset: "storeStep d (reset env d)"
  using reset_cases[of env d] by (auto simp: storeStep_iff)

lemma storeStep_andThen:
  assumes "storeStep d (snd r)" and "\<And>d1. storeStep d1 (snd (f d1))"
  shows "storeStep d (snd (andThen r f))"
proof (cases r)
  case (Pair res d1)
  show ?thesis
  proof (cases res)
    case None
    with Pair assms(1) assms(2)[of d1] show ?thesis
      by (auto simp: andThen_def intro: storeStep_trans)
  next
    case (Some e)
    with Pair assms(1) show ?thesis by (simp add: andThen_def)
  qed
qed

lemma storeStep_ProfileListItems: "storeStep d (snd (ProfileListItems env d))"
  by (simp add: ProfileListItems_def storeStep_emit split: option.splits)

lemma profile_ProfileListItems: "profile (snd (ProfileListItems env d)) = profile d"
  by (simp add: ProfileListItems_def emit_def split: option.splits)

lemma storeStep_ProfileListIndex: "storeStep d (snd (ProfileListIndex env lst input d))"
  using storeStep_ProfileListItems[of d env]
  by (cases lst; cases "ProfileListItems env d")
     (auto simp: ProfileListIndex_def storeStep_refl split: option.splits sum.splits)

lemma profile_ProfileListIndex: "profile (snd (ProfileListIndex env lst input d)) = profile d"
  using profile_ProfileListItems[of env d]
  by (cases lst; cases "ProfileListItems env d")
     (auto simp: ProfileListIndex_def split: option.splits sum.splits)

lemma storeStep_ProfileInstall: "storeStep d (snd (ProfileInstall env stepMsg pkg d))"
  by (auto simp: ProfileInstall_def storeStep_iff emit_def split: option.splits)

lemma storeStep_nixProfileRemove: "storeStep d (snd (nixProfileRemove env idx d))"
  by (auto simp: nixProfileRemove_def storeStep_iff emit_def split: option.splits)

lemma storeStep_prefetchLoop: "storeStep d (snd (prefetchLoop env inputs d))"
proof (induction inputs arbitrary: d)
  case Nil
  show ?case by (simp add: storeStep_refl)
next
  case (Cons input rest)
  show ?case
    by (simp, rule storeStep_andThen) (simp_all add: extCall_def storeStep_emit Cons.IH)
qed

lemma storeStep_installLoop: "storeStep d (snd (installLoop env t i pkgs d))"
proof (induction pkgs arbitrary: d i)
  case Nil
  show ?case by (simp add: storeStep_refl)
next
  case (Cons pkg rest)
  show ?case
    by (simp add: Let_def, rule storeStep_andThen) (simp_all add: storeStep_ProfileInstall Cons.IH)
qed

lemma storeStep_pendingLoop: "storeStep d (snd (pendingLoop env lst inputs pending d))"
proof (induction inputs arbitrary: d pending)
  case Nil
  show ?case by (simp add: storeStep_refl)
next
  case (Cons input rest)
  have step: "storeStep d (snd (ProfileListIndex env (Some lst) input d))"
    by (rule storeStep_ProfileListIndex)
  show ?case
  proof (cases "ProfileListIndex env (Some lst) input d")
    case (Pair r d')
    with step have "storeStep d d'" by simp
    with Pair Cons.IH show ?thesis
      by (auto split: sum.splits intro: storeStep_trans)
  qed
qed

lemma storeStep_pendingPackagesForInstallation:
  "storeStep d (snd (pendingPackagesForInstallation env d))"
proof (cases "ProfileListItems env (reset env d)")
  case (Pair r d')
  with storeStep_ProfileListItems[of "reset env d" env] have "storeStep (reset env d) d'" by simp
  with storeStep_reset[of d env] have "storeStep d d'" by (rule storeStep_trans)
  with Pair storeStep_pendingLoop storeStep_reset[of d env] show ?thesis
    by (auto simp: pendingPackagesForInstallation_def profilePath_eq
          split: option.splits sum.splits intro: storeStep_trans)
qed

lemma storeStep_addPackagesToProfile: "storeStep d (snd (addPackagesToProfile env mode d))"
proof (cases "mode = uninstall")
  case True
  then show ?thesis by (simp add: addPackagesToProfile_def storeStep_refl)
next
  case False
  have inner: "storeStep d1 (snd (case pendingPackagesForInstallation env d1 of
          (Inl e, d2) \<Rightarrow> (Some e, d2)
        | (Inr pkgs, d2) \<Rightarrow>
            (if length pkgs = 0 then (None, d2)
             else
               (let d3 = emit (EvFprint (newline # installingMsg pkgs @ [newline, newline])) d2
                in case profilePath env d3 of
                     (Some e, d4) \<Rightarrow> (Some e, d4)
                   | (None, d4) \<Rightarrow> installLoop env (length pkgs) 0 pkgs d4))))" for d1
  proof (cases "pendingPackagesForInstallation env d1")
    case (Pair r d2)
    with storeStep_pendingPackagesForInstallation[of d1 env] have s12: "storeStep d1 d2" by simp
    have s23: "storeStep d2 (emit (EvFprint m) d2)" for m by (simp add: storeStep_emit)
    have s24: "storeStep d1 (reset env (emit (EvFprint m) d2))" for m
      using storeStep_trans[OF s12 storeStep_trans[OF s23 storeStep_reset]] .
    have s3: "storeStep d1 (snd (installLoop env t i pkgs (reset env (emit (EvFprint m) d2))))"
      for t i pkgs m
      using storeStep_trans[OF s24 storeStep_installLoop] .
    show ?thesis
      using Pair s12 s24 s3
      by (auto simp: Let_def profilePath_eq split: sum.splits option.splits)
  qed
  show ?thesis
    using False
    by (simp add: addPackagesToProfile_def, intro storeStep_andThen storeStep_prefetchLoop inner)
qed

lemma storeStep_extraPackagesInProfile: "storeStep d (snd (extraPackagesInProfile env d))"
proof (cases "ProfileListItems env (reset env d)")
  case (Pair r d')
  with storeStep_ProfileListItems[of "reset env d" env] have "storeStep (reset env d) d'" by simp
  with storeStep_reset[of d env] have "storeStep d d'" by (rule storeStep_trans)
  with Pair storeStep_reset[of d env] show ?thesis
    by (auto simp: extraPackagesInProfile_def profilePath_eq Let_def
          split: option.splits sum.splits)
qed

lemma storeStep_ProfileRemoveItems: "storeStep d (snd (ProfileRemoveItems env items d))"
proof (induction items arbitrary: d)
  case Nil
  show ?case by (simp add: storeStep_refl)
next
  case (Cons item rest)
  show ?case
    by (simp, rule storeStep_andThen) (simp_all add: storeStep_nixProfileRemove Cons.IH)
qed

lemma storeStep_tidyProfile: "storeStep d (snd (tidyProfile env d))"
proof (cases "extraPackagesInProfile env d")
  case (Pair r d')
  with storeStep_extraPackagesInProfile[of d env] have s1: "storeStep d d'" by simp
  have s2: "storeStep d (reset env d')"
    using storeStep_trans[OF s1 storeStep_reset] .
  have s3: "storeStep d (snd (ProfileRemoveItems env extras (reset env d')))" for extras
    using storeStep_trans[OF s2 storeStep_ProfileRemoveItems] .
  from Pair s1 s2 s3 show ?thesis
    by (auto simp: tidyProfile_def profilePath_eq split: option.splits sum.splits)
qed

lemma storeStep_syncPackagesToProfile: "storeStep d (snd (syncPackagesToProfile env mode d))"
  unfolding syncPackagesToProfile_def
  by (intro storeStep_andThen storeStep_addPackagesToProfile storeStep_tidyProfile)

lemma storeStep_removeLoop: "storeStep d (snd (removeLoop env pkgs d))"
proof (induction pkgs arbitrary: d)
  case Nil
  show ?case by (simp add: storeStep_refl)
next
  case (Cons input rest)
  show ?case
  proof (cases "ProfileListIndex env None input d")
    case (Pair r d')
    with storeStep_ProfileListIndex[of d env None input] have s1: "storeStep d d'" by simp
    show ?thesis
    proof (cases r)
      case (Inl e)
      have s2: "storeStep d' (emit (EvFerror m) d')" for m by (simp add: storeStep_emit)
      have "storeStep d (snd (removeLoop env rest (emit (EvFerror m) d')))" for m
        using storeStep_trans[OF s1 storeStep_trans[OF s2 Cons.IH]] .
      with Pair Inl show ?thesis by simp
    next
      case (Inr idx)
      have "storeStep d' (snd (andThen (nixProfileRemove env idx d') (removeLoop env rest)))"
        by (intro storeStep_andThen storeStep_nixProfileRemove Cons.IH)
      with Pair Inr s1 show ?thesis by (auto intro: storeStep_trans)
    qed
  qed
qed

lemma storeStep_removePackagesFromProfile:
  "storeStep d (snd (removePackagesFromProfile env pkgs d))"
  using storeStep_reset[of d env] storeStep_trans[OF storeStep_reset storeStep_removeLoop]
  by (simp add: removePackagesFromProfile_def profilePath_eq split: option.splits)

section \<open>The install pass\<close>





lemma resetProfileDirForFlakes_events:
  "resetProfileDirForFlakes env (d\<lparr>events := es\<rparr>)
     = apsnd (\<lambda>x. x\<lparr>events := es\<rparr>) (resetProfileDirForFlakes env d)"
  by (cases "evalSymlinksErr env"; cases "statErr env"; cases "osRemoveErr env")
     (simp_all add: resetProfileDirForFlakes_def)

lemma reset_events: "reset env (d\<lparr>events := es\<rparr>) = (reset env d)\<lparr>events := es\<rparr>"
  by (simp add: reset_def resetProfileDirForFlakes_events)

lemma reset_emit: "reset env (emit ev d) = emit ev (reset env d)"
  by (simp add: emit_def reset_events reset_fields)







lemma not_store_event: "list_all isStoreEvent evs \<Longrightarrow> EvLockfileTidy \<notin> set evs \<and> EvLockfileSave \<notin> set evs"
  by (auto simp: list_all_iff)



section \<open>Persistence\<close>

lemma andThen_cases:
  assumes "andThen r f = (x, d')"
  obtains (stopped) e where "r = (Some e, d')" "x = Some e"
        | (went_on) d1 where "r = (None, d1)" "f d1 = (x, d')"
  using assms by (cases r; cases "fst r") (auto simp: andThen_def)

text \<open>
  Up to persistence nothing touches the lockfile: a quiet step leaves the declared
  list, the lockfile and the saved lockfile alone and calls neither \<open>Tidy\<close> nor \<open>Save\<close>.
\<close>

lemma storeStep_quiet:
  assumes "storeStep d d'"
  shows "cfg_Packages d' = cfg_Packages d \<and> lockfile d' = lockfile d
         \<and> savedLockfile d' = savedLockfile d
         \<and> (\<exists>evs. events d' = events d @ evs \<and> EvLockfileSave \<notin> set evs \<and> EvLockfileTidy \<notin> set evs)"
  using assms not_store_event by (auto simp: storeStep_iff)

text \<open>
  C8. Whatever the mode and the outcome, a reconciliation calls \<open>Save\<close> at most once
  and only directly after \<open>Tidy\<close>; when it does not call \<open>Save\<close> the saved lockfile
  is as before, and when the save succeeds every raw reference of the saved lockfile
  is in the declared package list.
\<close>

theorem tidy_before_save:
  assumes "ensurePackagesAreInstalled env mode d = (r, d')"
  shows "\<exists>evs. events d' = events d @ evs
           \<and> cfg_Packages d' = cfg_Packages d
           \<and> (EvLockfileSave \<notin> set evs \<longrightarrow> savedLockfile d' = savedLockfile d)
           \<and> (EvLockfileSave \<in> set evs \<longrightarrow>
                (\<exists>before after. evs = before @ [EvLockfileTidy, EvLockfileSave] @ after
                    \<and> EvLockfileSave \<notin> set before \<and> EvLockfileSave \<notin> set after)
                \<and> (lockfileSaveErr env = None \<longrightarrow>
                      fst ` set (savedLockfile d') \<subseteq> set (cfg_Packages d')))"
proof -
  let ?goal = "\<lambda>d'. \<exists>evs. events d' = events d @ evs
           \<and> cfg_Packages d' = cfg_Packages d
           \<and> (EvLockfileSave \<notin> set evs \<longrightarrow> savedLockfile d' = savedLockfile d)
           \<and> (EvLockfileSave \<in> set evs \<longrightarrow>
                (\<exists>before after. evs = before @ [EvLockfileTidy, EvLockfileSave] @ after
                    \<and> EvLockfileSave \<notin> set before \<and> EvLockfileSave \<notin> set after)
                \<and> (lockfileSaveErr env = None \<longrightarrow>
                      fst ` set (savedLockfile d') \<subseteq> set (cfg_Packages d')))"
  have quiet: "?goal d2"
    if "cfg_Packages d2 = cfg_Packages d" "savedLockfile d2 = savedLockfile d"
      "events d2 = events d @ evs" "EvLockfileSave \<notin> set evs" for d2 evs
    using that by (intro exI[of _ evs]) simp
  show ?thesis
  proof (cases "localLockErr env = None \<and> IsUpToDate env d = Inr False")
    case False
    then have "d' = d"
      using assms by (auto simp: ensurePackagesAreInstalled_def split: option.splits sum.splits if_splits)
    then show ?thesis using quiet[of d "[]"] by simp
  next
    case True
    define d1 where "d1 = emit EvGenerateForPrintEnv d"
    define dX where "dX = (if mode = ensure
           then emit (EvFprint (''Ensuring packages are installed.'' @ [newline])) d1 else d1)"
    have run: "andThen (generateErr env, d1) (\<lambda>d1.
                  andThen (syncPackagesToProfile env mode
                             (if mode = ensure
                              then emit (EvFprint (''Ensuring packages are installed.'' @ [newline])) d1
                              else d1)) (\<lambda>d2.
                  andThen (extCall EvRemoveInvalidSymlinks (removeInvalidSymlinksErr env) d2) (\<lambda>d3.
                  andThen (extCall EvComputeNixEnv (computeNixEnvErr env) d3) (\<lambda>d4.
                  andThen (Save env (Tidy d4)) (Update env))))) = (r, d')"
      using assms True by (simp add: ensurePackagesAreInstalled_def extCall_def d1_def)
    obtain evX where X: "cfg_Packages dX = cfg_Packages d" "lockfile dX = lockfile d"
      "savedLockfile dX = savedLockfile d" "events dX = events d @ evX"
      "EvLockfileSave \<notin> set evX" "EvLockfileTidy \<notin> set evX"
      by (cases "mode = ensure") (simp_all add: dX_def d1_def emit_def)
    from run show ?thesis
    proof (cases rule: andThen_cases)
      case (stopped e)
      then have "d' = d1" by simp
      then show ?thesis using quiet[of d1 "[EvGenerateForPrintEnv]"] by (simp add: d1_def emit_def)
    next
      case (went_on d1')
      from went_on(1) have same1: "d1 = d1'" by simp
      have sync: "andThen (syncPackagesToProfile env mode dX) (\<lambda>d2.
                  andThen (extCall EvRemoveInvalidSymlinks (removeInvalidSymlinksErr env) d2) (\<lambda>d3.
                  andThen (extCall EvComputeNixEnv (computeNixEnvErr env) d3) (\<lambda>d4.
                  andThen (Save env (Tidy d4)) (Update env)))) = (r, d')"
        using went_on(2) unfolding dX_def same1 .
      define d2 where "d2 = snd (syncPackagesToProfile env mode dX)"
      have "storeStep dX d2" unfolding d2_def by (rule storeStep_syncPackagesToProfile)
      from storeStep_quiet[OF this] X obtain ev2 where S2: "cfg_Packages d2 = cfg_Packages d"
        "lockfile d2 = lockfile d" "savedLockfile d2 = savedLockfile d" "events d2 = events d @ ev2"
        "EvLockfileSave \<notin> set ev2" "EvLockfileTidy \<notin> set ev2"
        by auto
      from sync show ?thesis
      proof (cases rule: andThen_cases)
        case (stopped e)
        then have "d' = d2" by (simp add: d2_def)
        then show ?thesis using quiet[of d2 ev2] S2 by simp
      next
        case (went_on d2')
        then have d2': "d2' = d2" by (simp add: d2_def)
        define d3 where "d3 = emit EvRemoveInvalidSymlinks d2"
        define d4 where "d4 = emit EvComputeNixEnv d3"
        have step3: "andThen (removeInvalidSymlinksErr env, d3) (\<lambda>d3.
                  andThen (extCall EvComputeNixEnv (computeNixEnvErr env) d3) (\<lambda>d4.
                  andThen (Save env (Tidy d4)) (Update env))) = (r, d')"
          using went_on(2) by (simp add: d2' extCall_def d3_def)
        have "d' = d3 \<or> d' = d4 \<or> andThen (Save env (Tidy d4)) (Update env) = (r, d')"
          using step3
        proof (cases rule: andThen_cases)
          case (stopped e)
          then show ?thesis by simp
        next
          case (went_on d3')
          then have "andThen (computeNixEnvErr env, d4) (\<lambda>d4.
                  andThen (Save env (Tidy d4)) (Update env)) = (r, d')"
            by (auto simp: extCall_def d4_def)
          then show ?thesis
            by (cases rule: andThen_cases) auto
        qed
        then consider
            (a) "d' = d3" | (b) "d' = d4"
          | (c) "andThen (Save env (Tidy d4)) (Update env) = (r, d')"
          by blast
        then show ?thesis
        proof cases
          case a
          then show ?thesis
            using quiet[of d3 "ev2 @ [EvRemoveInvalidSymlinks]"] S2 by (simp add: d3_def emit_def)
        next
          case b
          then show ?thesis
            using quiet[of d4 "ev2 @ [EvRemoveInvalidSymlinks, EvComputeNixEnv]"] S2
            by (simp add: d4_def d3_def emit_def)
        next
          case c
          let ?ev4 = "ev2 @ [EvRemoveInvalidSymlinks, EvComputeNixEnv]"
          have D4: "cfg_Packages d4 = cfg_Packages d" "events d4 = events d @ ?ev4"
            "EvLockfileSave \<notin> set ?ev4"
            using S2 by (simp_all add: d4_def d3_def emit_def)
          have tidy: "fst ` set (lockfile (Tidy d4)) \<subseteq> set (cfg_Packages d4)"
            by (auto simp: Tidy_def emit_def)
          from c obtain tail where fin: "events d' = events d4 @ [EvLockfileTidy, EvLockfileSave] @ tail"
            "EvLockfileSave \<notin> set tail" "cfg_Packages d' = cfg_Packages d4"
            "lockfileSaveErr env = None \<longrightarrow> savedLockfile d' = lockfile (Tidy d4)"
            by (cases "lockfileSaveErr env"; cases "localLockUpdateErr env")
               (auto simp: Save_def Tidy_def Update_def emit_def andThen_def)
          show ?thesis
          proof (rule exI[of _ "?ev4 @ [EvLockfileTidy, EvLockfileSave] @ tail"], intro conjI impI)
            show "\<exists>before after. ?ev4 @ [EvLockfileTidy, EvLockfileSave] @ tail
                     = before @ [EvLockfileTidy, EvLockfileSave] @ after
                    \<and> EvLockfileSave \<notin> set before \<and> EvLockfileSave \<notin> set after"
              using D4(3) fin(2) by (intro exI[of _ ?ev4] exI[of _ tail]) simp
            show "fst ` set (savedLockfile d') \<subseteq> set (cfg_Packages d')"
              if "lockfileSaveErr env = None"
              using that fin(3,4) tidy by simp
          qed (use fin D4 in simp_all)
        qed
      qed
    qed
  qed
qed

theorem tidy_before_save_witness:
  "ensurePackagesAreInstalled calmWorld uninstall dropped = (None, reconciled)
   \<and> fst ` set (savedLockfile reconciled) \<subseteq> set (cfg_Packages reconciled)
   \<and> savedLockfile reconciled = [(''b@2'', ''b@2'')]"
proof -
  have run: "ensurePackagesAreInstalled calmWorld uninstall dropped = (None, reconciled)"
    by code_simp
  have ok: "lockfileSaveErr calmWorld = None" by (simp add: calmWorld_def)
  have evs: "events reconciled = events dropped @ evs \<Longrightarrow> EvLockfileSave \<in> set evs" for evs
    by (auto simp: reconciled_def dropped_def)
  have "fst ` set (savedLockfile reconciled) \<subseteq> set (cfg_Packages reconciled)"
    using tidy_before_save[OF run] ok evs by blast
  moreover have "savedLockfile reconciled = [(''b@2'', ''b@2'')]"
    by (simp add: reconciled_def)
  ultimately show ?thesis using run by simp
qed

section \<open>Install mode and the tidy pass\<close>







lemma addsOnly_emit: "\<forall>idx. ev \<noteq> EvProfileRemove idx \<Longrightarrow> addsOnly env d (emit ev d)"
  by (auto simp: addsOnly_def emit_def reset_events reset_fields declaredOnly_def)


lemma addsOnly_ProfileListItems: "addsOnly env d (snd (ProfileListItems env d))"
  by (simp add: ProfileListItems_def addsOnly_emit split: option.splits)


















section \<open>The removal flow\<close>

lemma installsOf_none: "list_all (\<lambda>ev. \<forall>m p. ev \<noteq> EvProfileInstall m p) evs \<Longrightarrow> installsOf evs = []"
  by (induction evs rule: installsOf.induct) auto

lemma shrinks_refl: "shrinks d d"
  by (simp add: shrinks_def)

lemma shrinks_trans: "shrinks a b \<Longrightarrow> shrinks b c \<Longrightarrow> shrinks a c"
  unfolding shrinks_def
  by (elim conjE exE, intro conjI, simp, blast, blast) (auto simp: installsOf_append)

lemma shrinks_andThen:
  assumes "shrinks d (snd r)" and "\<And>d1. shrinks d1 (snd (f d1))"
  shows "shrinks d (snd (andThen r f))"
proof (cases r)
  case (Pair res d1)
  show ?thesis
  proof (cases res)
    case None
    with Pair assms(1) assms(2)[of d1] show ?thesis
      by (auto simp: andThen_def intro: shrinks_trans)
  next
    case (Some e)
    with Pair assms(1) show ?thesis by (simp add: andThen_def)
  qed
qed

lemma shrinks_emit:
  "\<not> isFwarning ev \<Longrightarrow> installsOf [ev] = [] \<Longrightarrow> shrinks d (emit ev d)"
  by (simp add: shrinks_def emit_def)

lemma shrinks_extCall:
  "\<not> isFwarning ev \<Longrightarrow> installsOf [ev] = [] \<Longrightarrow> shrinks d (snd (extCall ev outcome d))"
  by (simp add: extCall_def shrinks_emit)

lemma shrinks_ProfileListItems: "shrinks d (snd (ProfileListItems env d))"
  by (simp add: ProfileListItems_def shrinks_emit split: option.splits)

lemma shrinks_ProfileListIndex: "shrinks d (snd (ProfileListIndex env lst input d))"
  using shrinks_ProfileListItems[of d env]
  by (cases lst; cases "ProfileListItems env d")
     (auto simp: ProfileListIndex_def shrinks_refl split: option.splits sum.splits)

lemma removeIndex_subset: "set (removeIndex idx items) \<subseteq> set items"
  by (auto simp: removeIndex_def dest: in_set_takeD in_set_dropD)

lemma shrinks_nixProfileRemove: "shrinks d (snd (nixProfileRemove env idx d))"
  using removeIndex_subset[of idx "profile d"]
  by (auto simp: nixProfileRemove_def shrinks_def emit_def split: option.splits)

lemma shrinks_reset: "shrinks d (reset env d)"
  using reset_profile[of env d] by (simp add: shrinks_def reset_fields)

lemma shrinks_removeLoop: "shrinks d (snd (removeLoop env pkgs d))"
proof (induction pkgs arbitrary: d)
  case Nil
  show ?case by (simp add: shrinks_refl)
next
  case (Cons input rest)
  show ?case
  proof (cases "ProfileListIndex env None input d")
    case (Pair r d')
    with shrinks_ProfileListIndex[of d env None input] have s1: "shrinks d d'" by simp
    show ?thesis
    proof (cases r)
      case (Inl e)
      have s2: "shrinks d' (emit (EvFerror m) d')" for m by (simp add: shrinks_emit)
      have "shrinks d (snd (removeLoop env rest (emit (EvFerror m) d')))" for m
        using shrinks_trans[OF s1 shrinks_trans[OF s2 Cons.IH]] .
      with Pair Inl show ?thesis by simp
    next
      case (Inr idx)
      have "shrinks d' (snd (andThen (nixProfileRemove env idx d') (removeLoop env rest)))"
        by (intro shrinks_andThen shrinks_nixProfileRemove Cons.IH)
      with Pair Inr s1 show ?thesis by (auto intro: shrinks_trans)
    qed
  qed
qed

lemma shrinks_removePackagesFromProfile:
  "shrinks d (snd (removePackagesFromProfile env pkgs d))"
  using shrinks_reset[of d env] shrinks_trans[OF shrinks_reset shrinks_removeLoop]
  by (simp add: removePackagesFromProfile_def profilePath_eq split: option.splits)

lemma shrinks_ProfileRemoveItems: "shrinks d (snd (ProfileRemoveItems env items d))"
proof (induction items arbitrary: d)
  case Nil
  show ?case by (simp add: shrinks_refl)
next
  case (Cons item rest)
  show ?case
    by (simp, rule shrinks_andThen) (simp_all add: shrinks_nixProfileRemove Cons.IH)
qed

lemma shrinks_tidyProfile: "shrinks d (snd (tidyProfile env d))"
proof -
  let ?d1 = "emit EvProfileListItems (reset env d)"
  have s1: "shrinks d ?d1"
    using shrinks_trans[OF shrinks_reset shrinks_emit] by simp
  have s2: "shrinks d (reset env ?d1)"
    using shrinks_trans[OF s1 shrinks_reset] .
  have s3: "shrinks d (snd (ProfileRemoveItems env items (reset env ?d1)))" for items
    using shrinks_trans[OF s2 shrinks_ProfileRemoveItems] .
  show ?thesis
    using s1 s2 s3 shrinks_reset[of d env]
    by (cases "mkdirAllErr env"; cases "listItemsErr env")
       (simp_all add: tidyProfile_def extraPackagesInProfile_def profilePath_eq
          ProfileListItems_def Let_def)
qed

lemma shrinks_persist: "shrinks d (snd (andThen (Save env (Tidy d)) (Update env)))"
  by (auto simp: shrinks_def andThen_def Save_def Tidy_def Update_def emit_def
        split: option.splits)

lemma shrinks_ensurePackagesAreInstalled:
  "shrinks d (snd (ensurePackagesAreInstalled env uninstall d))"
proof -
  have sync: "shrinks d1 (snd (syncPackagesToProfile env uninstall d1))" for d1
    by (simp add: syncPackagesToProfile_def addPackagesToProfile_def andThen_def shrinks_tidyProfile)
  have chain: "shrinks d
     (snd (andThen (extCall EvGenerateForPrintEnv (generateErr env) d) (\<lambda>d1.
           andThen (syncPackagesToProfile env uninstall d1) (\<lambda>d2.
           andThen (extCall EvRemoveInvalidSymlinks (removeInvalidSymlinksErr env) d2) (\<lambda>d3.
           andThen (extCall EvComputeNixEnv (computeNixEnvErr env) d3) (\<lambda>d4.
           andThen (Save env (Tidy d4)) (Update env)))))))"
    by (intro shrinks_andThen shrinks_extCall sync shrinks_persist) simp_all
  then show ?thesis
    by (auto simp: ensurePackagesAreInstalled_def shrinks_refl split: option.splits sum.splits)
qed

lemma shrinks_lockfileRemove: "shrinks d (snd (lockfileRemove env refs d))"
  by (auto simp: lockfileRemove_def shrinks_def emit_def)

lemma shrinks_saveCfg: "shrinks d (snd (saveCfg env d))"
  by (auto simp: saveCfg_def shrinks_def emit_def split: option.splits)

text \<open>No step of the removal flow reads the record of calls: it only appends to it.\<close>

lemma withEarlier_fields [simp]:
  "cfg_Packages (withEarlier es d) = cfg_Packages d"
  "savedCfg (withEarlier es d) = savedCfg d"
  "lockfile (withEarlier es d) = lockfile d"
  "savedLockfile (withEarlier es d) = savedLockfile d"
  "localLock (withEarlier es d) = localLock d"
  "profile (withEarlier es d) = profile d"
  "legacyProfile (withEarlier es d) = legacyProfile d"
  "resetCheckDone (withEarlier es d) = resetCheckDone d"
  "events (withEarlier es d) = es @ events d"
  by (simp_all add: withEarlier_def)























section \<open>Remove\<close>


lemma Remove_unfold:
  "Remove env pkgs d =
     (case removeScan (Uniq pkgs) [] [] d of
        (packagesToUninstall, missingPkgs, d1) \<Rightarrow>
          uninstallTail env packagesToUninstall
            (if length missingPkgs > 0 then emit (EvFwarning (missingWarning missingPkgs)) d1
             else d1))"
  by (simp add: Remove_def uninstallTail_def split: prod.splits)


lemma shrinks_uninstallTail: "shrinks d (snd (uninstallTail env pkgs d))"
  unfolding uninstallTail_def
  by (intro shrinks_andThen shrinks_extCall shrinks_removePackagesFromProfile
        shrinks_ensurePackagesAreInstalled shrinks_lockfileRemove shrinks_saveCfg) simp_all







section \<open>Add\<close>

lemma CanonicalName_no_at: "CHR ''@'' \<notin> set (CanonicalName raw)"
  unfolding CanonicalName_def using set_takeWhileD by fastforce

lemma CanonicalName_plain: "CHR ''@'' \<notin> set raw \<Longrightarrow> CanonicalName raw = raw"
  by (auto simp: CanonicalName_def takeWhile_eq_all_conv)

lemma CanonicalName_Versioned: "CanonicalName (Versioned raw) = CanonicalName raw"
proof (cases "CHR ''@'' \<in> set raw")
  case True
  then show ?thesis by (simp add: Versioned_def)
next
  case False
  then have cut: "takeWhile (\<lambda>c. c \<noteq> CHR ''@'') (raw @ ''@latest'')
               = raw @ takeWhile (\<lambda>c. c \<noteq> CHR ''@'') ''@latest''"
    by (intro takeWhile_append2) auto
  have "CanonicalName (Versioned raw) = takeWhile (\<lambda>c. c \<noteq> CHR ''@'') (raw @ ''@latest'')"
    using False by (simp add: Versioned_def CanonicalName_def)
  also have "\<dots> = raw" unfolding cut by simp
  also have "\<dots> = CanonicalName raw" using CanonicalName_plain[OF False] by simp
  finally show ?thesis .
qed

lemma findPackageByName_again:
  assumes "findPackageByName d (CanonicalName pkg) = old" "old \<noteq> []"
  shows "findPackageByName d old = old"
proof -
  let ?c = "CanonicalName pkg"
  from assms have only: "filter (\<lambda>p. p = ?c \<or> CanonicalName p = ?c) (cfg_Packages d) = [old]"
    by (auto simp: findPackageByName_def split: list.splits)
  then have "old \<in> set (filter (\<lambda>p. p = ?c \<or> CanonicalName p = ?c) (cfg_Packages d))" by simp
  then have old: "old = ?c \<or> CanonicalName old = ?c" by simp
  have same: "(p = old \<or> CanonicalName p = old) \<longleftrightarrow> (p = ?c \<or> CanonicalName p = ?c)"
    if "p \<in> set (cfg_Packages d)" for p
  proof
    assume "p = old \<or> CanonicalName p = old"
    then show "p = ?c \<or> CanonicalName p = ?c"
    proof
      assume "p = old" with old show ?thesis by simp
    next
      assume c: "CanonicalName p = old"
      then have "CHR ''@'' \<notin> set old" using CanonicalName_no_at[of p] by simp
      then have "CanonicalName old = old" by (rule CanonicalName_plain)
      with old c show ?thesis by auto
    qed
  next
    assume "p = ?c \<or> CanonicalName p = ?c"
    with that have "p \<in> set (filter (\<lambda>p. p = ?c \<or> CanonicalName p = ?c) (cfg_Packages d))"
      by simp
    with only show "p = old \<or> CanonicalName p = old" by simp
  qed
  have "filter (\<lambda>p. p = old \<or> CanonicalName p = old) (cfg_Packages d)
          = filter (\<lambda>p. p = ?c \<or> CanonicalName p = ?c) (cfg_Packages d)"
    by (rule filter_cong) (simp_all add: same)
  with only show ?thesis by (simp add: findPackageByName_def)
qed

lemma cfg_andThen:
  assumes "cfg_Packages (snd r) = c" and "\<And>d1. cfg_Packages (snd (f d1)) = cfg_Packages d1"
  shows "cfg_Packages (snd (andThen r f)) = c"
  using assms by (cases r; cases "fst r") (auto simp: andThen_def)

lemma cfg_printReadmeLoop: "cfg_Packages (snd (printReadmeLoop env pkgs d)) = cfg_Packages d"
proof (induction pkgs arbitrary: d)
  case Nil
  show ?case by simp
next
  case (Cons p rest)
  show ?case
    by (simp, rule cfg_andThen) (simp_all add: extCall_def emit_def Cons.IH)
qed

lemma cfg_ensurePackagesAreInstalled:
  "cfg_Packages (snd (ensurePackagesAreInstalled env mode d)) = cfg_Packages d"
proof -
  have sync: "cfg_Packages (snd (syncPackagesToProfile env mode
                 (if mode = ensure
                  then emit (EvFprint (''Ensuring packages are installed.'' @ [newline])) d1
                  else d1))) = cfg_Packages d1" for d1
    using storeStep_syncPackagesToProfile[of _ env mode]
    by (simp add: storeStep_iff emit_def)
  have persist: "cfg_Packages (snd (andThen (Save env (Tidy d4)) (Update env))) = cfg_Packages d4"
    for d4
    by (auto simp: andThen_def Save_def Tidy_def Update_def emit_def split: option.splits)
  have chain: "cfg_Packages
     (snd (andThen (extCall EvGenerateForPrintEnv (generateErr env) d) (\<lambda>d1.
           andThen (syncPackagesToProfile env mode
                      (if mode = ensure
                       then emit (EvFprint (''Ensuring packages are installed.'' @ [newline])) d1
                       else d1)) (\<lambda>d2.
           andThen (extCall EvRemoveInvalidSymlinks (removeInvalidSymlinksErr env) d2) (\<lambda>d3.
           andThen (extCall EvComputeNixEnv (computeNixEnvErr env) d3) (\<lambda>d4.
           andThen (Save env (Tidy d4)) (Update env))))))) = cfg_Packages d"
    by (intro cfg_andThen sync persist) (simp_all add: extCall_def emit_def)
  then show ?thesis
    by (auto simp: ensurePackagesAreInstalled_def split: option.splits sum.splits)
qed

lemma cfg_Add: "cfg_Packages (snd (Add env pkgsNames d)) = cfg_Packages (snd (addLoop env (Uniq pkgsNames) [] d))"
proof (cases "addLoop env (Uniq pkgsNames) [] d")
  case (Pair res d1)
  have tail: "cfg_Packages (snd (andThen (saveCfg env d2) (\<lambda>d3.
                    andThen (printReadmeLoop env pkgs d3) (\<lambda>d4.
                    andThen (lockfileAdd env pkgs d4) (\<lambda>d5.
                    extCall EvCreateWrappers (createWrappersErr env) d5))))) = cfg_Packages d2" for d2 pkgs
    by (intro cfg_andThen cfg_printReadmeLoop)
       (auto simp: saveCfg_def lockfileAdd_def extCall_def emit_def split: option.splits sum.splits)
  show ?thesis
  proof (cases res)
    case (Inl e)
    with Pair show ?thesis by (simp add: Add_def)
  next
    case (Inr pkgs)
    show ?thesis
    proof (cases "ensurePackagesAreInstalled env install d1")
      case (Pair r2 d2)
      with cfg_ensurePackagesAreInstalled[of env install d1] have "cfg_Packages d2 = cfg_Packages d1"
        by simp
      with Pair \<open>addLoop env (Uniq pkgsNames) [] d = (res, d1)\<close> Inr tail[of d2 pkgs] show ?thesis
        by (auto simp: Add_def split: option.splits)
    qed
  qed
qed

lemma cfg_Remove_found:
  assumes "findPackageByName d x = found" "found \<noteq> []"
  shows "cfg_Packages (snd (Remove env [x] d)) = Without (cfg_Packages d) found"
proof -
  have "removeScan (Uniq [x]) [] [] d = ([found], [], d\<lparr>cfg_Packages := Without (cfg_Packages d) found\<rparr>)"
    using assms by (simp add: Uniq_def Let_def)
  then have "Remove env [x] d = uninstallTail env [found] (d\<lparr>cfg_Packages := Without (cfg_Packages d) found\<rparr>)"
    by (simp add: Remove_unfold)
  with shrinks_uninstallTail[of "d\<lparr>cfg_Packages := Without (cfg_Packages d) found\<rparr>" env "[found]"]
  show ?thesis by (simp add: shrinks_def)
qed

text \<open>
  C5, as the code has it. Adding one package whose versioned form is not declared
  yet while a declared package \<open>old\<close> answers to its canonical name: once the removal
  of \<open>old\<close> has succeeded, the declared list is the old list without \<open>old\<close>, in its
  order, followed by the new versioned package. Exactly one entry then has that
  canonical name, and it is the last one of the list, not at the place of \<open>old\<close>.
\<close>

theorem Add_replaces_at_end:
  assumes "Versioned pkg \<notin> set (cfg_Packages d)"
    and "findPackageByName d (CanonicalName pkg) = old" "old \<noteq> []"
    and "fst (Remove env [old] d) = None"
  shows "cfg_Packages (snd (Add env [pkg] d)) = Without (cfg_Packages d) old @ [Versioned pkg]
         \<and> filter (\<lambda>p. CanonicalName p = CanonicalName pkg) (cfg_Packages (snd (Add env [pkg] d)))
             = [Versioned pkg]"
proof -
  let ?c = "CanonicalName pkg"
  define dR where "dR = snd (Remove env [old] d)"
  have rem: "Remove env [old] d = (None, dR)"
    using assms(4) by (simp add: dR_def prod_eq_iff)
  have cfgR: "cfg_Packages dR = Without (cfg_Packages d) old"
    unfolding dR_def using findPackageByName_again[OF assms(2,3)] assms(3) by (rule cfg_Remove_found)
  have loop: "addLoop env (Uniq [pkg]) [] d
                = (Inr [Versioned pkg], dR\<lparr>cfg_Packages := cfg_Packages dR @ [Versioned pkg]\<rparr>)"
    using assms(1,2,3) rem by (simp add: Uniq_def Let_def)
  have after: "cfg_Packages (snd (Add env [pkg] d)) = Without (cfg_Packages d) old @ [Versioned pkg]"
    by (simp add: cfg_Add loop cfgR)
  from assms(2,3) have only: "filter (\<lambda>p. p = ?c \<or> CanonicalName p = ?c) (cfg_Packages d) = [old]"
    by (auto simp: findPackageByName_def split: list.splits)
  have none: "filter (\<lambda>p. CanonicalName p = ?c) (Without (cfg_Packages d) old) = []"
  proof -
    have "p = old" if "p \<in> set (cfg_Packages d)" "CanonicalName p = ?c" for p
    proof -
      from that have "p \<in> set (filter (\<lambda>p. p = ?c \<or> CanonicalName p = ?c) (cfg_Packages d))" by simp
      with only show ?thesis by simp
    qed
    then show ?thesis by (auto simp: Without_def filter_empty_conv)
  qed
  show ?thesis
    by (simp add: after none CanonicalName_Versioned)
qed

theorem Add_replaces_at_end_witness:
  "Versioned ''a@2'' \<notin> set (cfg_Packages settled)
   \<and> findPackageByName settled (CanonicalName ''a@2'') = ''a@1''
   \<and> fst (Remove calmWorld [''a@1''] settled) = None
   \<and> cfg_Packages (snd (Add calmWorld [''a@2''] settled)) = [''b@2'', ''a@2'']
   \<and> filter (\<lambda>p. CanonicalName p = ''a'') (cfg_Packages (snd (Add calmWorld [''a@2''] settled)))
       = [''a@2'']"
proof -
  have h1: "Versioned ''a@2'' \<notin> set (cfg_Packages settled)"
    by (simp add: Versioned_def settled_def)
  have h2: "findPackageByName settled (CanonicalName ''a@2'') = ''a@1''"
    by (simp add: findPackageByName_def CanonicalName_def settled_def)
  have h3: "''a@1'' \<noteq> []" by simp
  have h4: "fst (Remove calmWorld [''a@1''] settled) = None" by code_simp
  have c: "CanonicalName ''a@2'' = ''a''" "Versioned ''a@2'' = ''a@2''"
    "Without (cfg_Packages settled) ''a@1'' = [''b@2'']"
    by (simp_all add: CanonicalName_def Versioned_def Without_def settled_def)
  from Add_replaces_at_end[OF h1 h2 h3 h4] h1 h2 h4 c show ?thesis
    by (simp add: CanonicalName_def)
qed

text \<open>
  C5 as stated fails: with \<open>a@1\<close>, \<open>b@2\<close> declared, adding \<open>a@2\<close> leaves \<open>b@2\<close>,
  \<open>a@2\<close>, and adding \<open>a@1\<close>, \<open>b@2\<close>, \<open>a@2\<close> to an empty project leaves the same:
  the surviving \<open>a\<close> comes after \<open>b\<close>.
\<close>

theorem Add_moves_replaced_package:
  "cfg_Packages settled = [''a@1'', ''b@2'']
   \<and> fst (Add calmWorld [''a@2''] settled) = None
   \<and> cfg_Packages (snd (Add calmWorld [''a@2''] settled)) = [''b@2'', ''a@2'']
   \<and> fst (Add calmWorld [''a@1'', ''b@2'', ''a@2''] blank) = None
   \<and> cfg_Packages (snd (Add calmWorld [''a@1'', ''b@2'', ''a@2''] blank)) = [''b@2'', ''a@2'']"
  by code_simp

lemma set_UniqFrom: "set (UniqFrom result xs) = set result \<union> set xs"
  by (induction xs arbitrary: result) auto

lemma set_Uniq: "set (Uniq xs) = set xs"
  by (simp add: Uniq_def set_UniqFrom)

lemma removeScan_shape:
  "\<exists>u m c. removeScan pkgs u0 m0 d = (u, m, d\<lparr>cfg_Packages := c\<rparr>) \<and> set c \<subseteq> set (cfg_Packages d)"
proof (induction pkgs arbitrary: u0 m0 d)
  case Nil
  have "d = d\<lparr>cfg_Packages := cfg_Packages d\<rparr>" by simp
  then show ?case by (metis removeScan.simps(1) subset_refl)
next
  case (Cons p rest)
  show ?case
  proof (cases "findPackageByName d p = []")
    case True
    with Cons.IH[of u0 "m0 @ [p]" d] show ?thesis by (simp add: Let_def)
  next
    case False
    let ?d1 = "d\<lparr>cfg_Packages := Without (cfg_Packages d) (findPackageByName d p)\<rparr>"
    from Cons.IH[of "u0 @ [findPackageByName d p]" m0 ?d1]
    obtain u m c where r: "removeScan rest (u0 @ [findPackageByName d p]) m0 ?d1 = (u, m, ?d1\<lparr>cfg_Packages := c\<rparr>)"
      "set c \<subseteq> set (cfg_Packages ?d1)" by blast
    have "set c \<subseteq> set (cfg_Packages d)" using r(2) by (auto simp: Without_def)
    with r(1) False show ?thesis by (auto simp: Let_def)
  qed
qed

lemma Remove_frame:
  "set (cfg_Packages (snd (Remove env pkgs d))) \<subseteq> set (cfg_Packages d)
   \<and> installsOf (events (snd (Remove env pkgs d))) = installsOf (events d)"
proof -
  obtain u m c where scan: "removeScan (Uniq pkgs) [] [] d = (u, m, d\<lparr>cfg_Packages := c\<rparr>)"
    and c: "set c \<subseteq> set (cfg_Packages d)"
    using removeScan_shape by blast
  define d1 where "d1 = (if length m > 0 then emit (EvFwarning (missingWarning m)) (d\<lparr>cfg_Packages := c\<rparr>)
                         else d\<lparr>cfg_Packages := c\<rparr>)"
  have d1: "cfg_Packages d1 = c" "installsOf (events d1) = installsOf (events d)"
    by (simp_all add: d1_def emit_def installsOf_append)
  have run: "Remove env pkgs d = uninstallTail env u d1"
    by (simp add: Remove_unfold scan d1_def)
  from shrinks_uninstallTail[of d1 env u] obtain evs where
    "cfg_Packages (snd (uninstallTail env u d1)) = cfg_Packages d1"
    "events (snd (uninstallTail env u d1)) = events d1 @ evs" "installsOf evs = []"
    by (auto simp: shrinks_def)
  with d1 c show ?thesis by (simp add: run installsOf_append)
qed

lemma addLoop_step:
  assumes "Versioned p \<notin> set (cfg_Packages d)"
  shows "(\<exists>e dR. addLoop env (p # rest) pkgs d = (Inl e, dR)
            \<and> installsOf (events dR) = installsOf (events d))
         \<or> (\<exists>dR. addLoop env (p # rest) pkgs d
                    = addLoop env rest (pkgs @ [Versioned p])
                        (dR\<lparr>cfg_Packages := cfg_Packages dR @ [Versioned p]\<rparr>)
                \<and> set (cfg_Packages dR) \<subseteq> set (cfg_Packages d)
                \<and> installsOf (events dR) = installsOf (events d))"
proof -
  define name where "name = findPackageByName d (CanonicalName p)"
  define rm where "rm = (if name \<noteq> [] then Remove env [name] d else (None, d))"
  have frame: "set (cfg_Packages (snd rm)) \<subseteq> set (cfg_Packages d)"
    "installsOf (events (snd rm)) = installsOf (events d)"
    using Remove_frame[of env "[name]" d] by (auto simp: rm_def)
  show ?thesis
  proof (cases rm)
    case (Pair r dR)
    with frame have f: "set (cfg_Packages dR) \<subseteq> set (cfg_Packages d)"
      "installsOf (events dR) = installsOf (events d)" by simp_all
    show ?thesis
    proof (cases r)
      case (Some e)
      with Pair assms have "addLoop env (p # rest) pkgs d = (Inl e, dR)"
        by (simp add: Let_def rm_def[symmetric] name_def[symmetric])
      with f(2) show ?thesis by blast
    next
      case None
      with Pair assms have "addLoop env (p # rest) pkgs d
          = addLoop env rest (pkgs @ [Versioned p]) (dR\<lparr>cfg_Packages := cfg_Packages dR @ [Versioned p]\<rparr>)"
        by (simp add: Let_def rm_def[symmetric] name_def[symmetric])
      with f show ?thesis by blast
    qed
  qed
qed

lemma addLoop_installs:
  "installsOf (events (snd (addLoop env names pkgs d))) = installsOf (events d)"
proof (induction names arbitrary: pkgs d)
  case Nil
  show ?case by simp
next
  case (Cons p rest)
  show ?case
  proof (cases "Versioned p \<in> set (cfg_Packages d)")
    case True
    with Cons.IH[of pkgs d] show ?thesis by (simp add: Let_def)
  next
    case False
    from addLoop_step[OF False, of env rest pkgs] show ?thesis
    proof (elim disjE exE conjE)
      fix e dR
      assume "addLoop env (p # rest) pkgs d = (Inl e, dR)"
        "installsOf (events dR) = installsOf (events d)"
      then show ?thesis by simp
    next
      fix dR
      assume step: "addLoop env (p # rest) pkgs d
          = addLoop env rest (pkgs @ [Versioned p]) (dR\<lparr>cfg_Packages := cfg_Packages dR @ [Versioned p]\<rparr>)"
        and "installsOf (events dR) = installsOf (events d)"
      then show ?thesis
        using Cons.IH[of "pkgs @ [Versioned p]" "dR\<lparr>cfg_Packages := cfg_Packages dR @ [Versioned p]\<rparr>"]
        by simp
    qed
  qed
qed

lemma addLoop_collects:
  assumes "addLoop env names pkgs d = (Inr pkgs', d')" "p \<in> set names"
    and "Versioned p \<notin> set (cfg_Packages d)"
  shows "Versioned p \<in> set pkgs'"
proof -
  have "set pkgs \<subseteq> set pkgs'
        \<and> (\<forall>q\<in>set names. Versioned q \<in> set pkgs' \<or> Versioned q \<in> set (cfg_Packages d))"
    using assms(1)
  proof (induction names arbitrary: pkgs d)
    case Nil
    then show ?case by simp
  next
    case (Cons a rest)
    show ?case
    proof (cases "Versioned a \<in> set (cfg_Packages d)")
      case True
      with Cons.prems have "addLoop env rest pkgs d = (Inr pkgs', d')" by (simp add: Let_def)
      from Cons.IH[OF this] True show ?thesis by simp
    next
      case False
      from addLoop_step[OF False, of env rest pkgs] show ?thesis
      proof (elim disjE exE conjE)
        fix e dR
        assume "addLoop env (a # rest) pkgs d = (Inl e, dR)"
        with Cons.prems show ?thesis by (simp del: addLoop.simps)
      next
        fix dR
        assume run: "addLoop env (a # rest) pkgs d
            = addLoop env rest (pkgs @ [Versioned a]) (dR\<lparr>cfg_Packages := cfg_Packages dR @ [Versioned a]\<rparr>)"
          and sub: "set (cfg_Packages dR) \<subseteq> set (cfg_Packages d)"
        from run Cons.prems have step: "addLoop env rest (pkgs @ [Versioned a])
                        (dR\<lparr>cfg_Packages := cfg_Packages dR @ [Versioned a]\<rparr>) = (Inr pkgs', d')"
          by (simp del: addLoop.simps)
        from Cons.IH[OF step] have a: "set pkgs \<subseteq> set pkgs'" "Versioned a \<in> set pkgs'"
          and b: "\<forall>q\<in>set rest. Versioned q \<in> set pkgs'
                    \<or> Versioned q \<in> set (cfg_Packages dR) \<or> Versioned q = Versioned a"
          by auto
        have "Versioned q \<in> set pkgs' \<or> Versioned q \<in> set (cfg_Packages d)" if "q \<in> set rest" for q
          using b that sub a(2) by auto
        with a show ?thesis by simp
      qed
    qed
  qed
  with assms(2,3) show ?thesis by blast
qed

lemma validateLoop_fails:
  "v \<in> set pkgs \<Longrightarrow> ValidateExists env v \<noteq> Inr True \<Longrightarrow> validateLoop env pkgs \<noteq> None"
  by (induction pkgs) (auto split: sum.splits)

lemma validateLoop_not_found:
  "\<forall>v\<in>set pkgs. \<exists>ok. ValidateExists env v = Inr ok \<Longrightarrow> validateLoop env pkgs = Some e \<Longrightarrow>
     \<exists>v\<in>set pkgs. ValidateExists env v = Inr False \<and> e = Wrap ErrPackageNotFound v"
proof (induction pkgs)
  case Nil
  then show ?case by simp
next
  case (Cons p rest)
  from Cons.prems(1) obtain ok where "ValidateExists env p = Inr ok" by auto
  with Cons show ?case by (cases ok) auto
qed

lemma addLoop_no_replacement:
  assumes "Versioned ` set names \<subseteq> V"
    and "\<forall>p\<in>set names. \<forall>q\<in>set (cfg_Packages d) \<union> V.
           q \<noteq> Versioned p \<longrightarrow> q \<noteq> CanonicalName p \<and> CanonicalName q \<noteq> CanonicalName p"
  shows "\<exists>pkgs' cfg'. addLoop env names pkgs d = (Inr pkgs', d\<lparr>cfg_Packages := cfg'\<rparr>)"
  using assms
proof (induction names arbitrary: pkgs d)
  case Nil
  have "d = d\<lparr>cfg_Packages := cfg_Packages d\<rparr>" by simp
  then show ?case by (metis addLoop.simps(1))
next
  case (Cons p rest)
  let ?v = "Versioned p"
  show ?case
  proof (cases "?v \<in> set (cfg_Packages d)")
    case True
    from Cons.prems have "Versioned ` set rest \<subseteq> V"
      "\<forall>p\<in>set rest. \<forall>q\<in>set (cfg_Packages d) \<union> V.
           q \<noteq> Versioned p \<longrightarrow> q \<noteq> CanonicalName p \<and> CanonicalName q \<noteq> CanonicalName p"
      by auto
    from Cons.IH[OF this, of pkgs] True show ?thesis by (simp add: Let_def)
  next
    case False
    from Cons.prems(2) have head: "\<forall>q\<in>set (cfg_Packages d) \<union> V.
           q \<noteq> ?v \<longrightarrow> q \<noteq> CanonicalName p \<and> CanonicalName q \<noteq> CanonicalName p"
      by simp
    have "\<not> (q = CanonicalName p \<or> CanonicalName q = CanonicalName p)"
      if "q \<in> set (cfg_Packages d)" for q
    proof -
      from that False have "q \<noteq> ?v" by auto
      moreover from that have "q \<in> set (cfg_Packages d) \<union> V" by simp
      ultimately show ?thesis using head by simp
    qed
    then have "filter (\<lambda>q. q = CanonicalName p \<or> CanonicalName q = CanonicalName p) (cfg_Packages d) = []"
      by (simp add: filter_empty_conv)
    then have nofind: "findPackageByName d (CanonicalName p) = []"
      by (simp add: findPackageByName_def)
    let ?d2 = "d\<lparr>cfg_Packages := cfg_Packages d @ [?v]\<rparr>"
    have step: "addLoop env (p # rest) pkgs d = addLoop env rest (pkgs @ [?v]) ?d2"
      using False nofind by (simp add: Let_def)
    from Cons.prems have v: "?v \<in> V" by auto
    with Cons.prems have "Versioned ` set rest \<subseteq> V"
      "\<forall>p\<in>set rest. \<forall>q\<in>set (cfg_Packages ?d2) \<union> V.
           q \<noteq> Versioned p \<longrightarrow> q \<noteq> CanonicalName p \<and> CanonicalName q \<noteq> CanonicalName p"
      by auto
    from Cons.IH[OF this, of "pkgs @ [?v]"] show ?thesis
      unfolding step by auto
  qed
qed

text \<open>
  C6, as the code has it. The replacement loop runs before the validation, and it
  removes the declared package that answers to the canonical name of a new one, from
  the profile and the lockfile too. When a package passed to \<open>Add\<close> that is not
  declared yet fails existence validation, \<open>Add\<close> returns an error, no install has
  been attempted, and the session is handed back as the replacement loop left it:
  nothing is done after the validation. When the replacement loop succeeded and the
  existence check answers for every package collected, the error is the not-found
  error of a collected package that does not exist; when the replacement loop failed,
  it is the error of that loop. When no package of the call shares its canonical
  name with another declared or added package, so that nothing is replaced, the
  replacement loop succeeds and changes only the declared list in memory, so that
  \<open>Add\<close> hands back lockfile, saved lockfile, profile, saved config, cache and record
  of calls as they were.
\<close>

theorem Add_validation_failure:
  assumes "p \<in> set pkgsNames" "Versioned p \<notin> set (cfg_Packages d)"
    and "ValidateExists env (Versioned p) = Inr False"
  shows "(\<exists>e. fst (Add env pkgsNames d) = Some e)
         \<and> installsOf (events (snd (Add env pkgsNames d))) = installsOf (events d)
         \<and> snd (Add env pkgsNames d) = snd (addLoop env (Uniq pkgsNames) [] d)
         \<and> (\<forall>e. fst (addLoop env (Uniq pkgsNames) [] d) = Inl e \<longrightarrow>
               fst (Add env pkgsNames d) = Some e)
         \<and> (\<forall>pkgs. fst (addLoop env (Uniq pkgsNames) [] d) = Inr pkgs \<longrightarrow>
               (\<forall>v\<in>set pkgs. \<exists>ok. ValidateExists env v = Inr ok) \<longrightarrow>
               (\<exists>v\<in>set pkgs. ValidateExists env v = Inr False
                    \<and> fst (Add env pkgsNames d) = Some (Wrap ErrPackageNotFound v)))
         \<and> ((\<forall>p\<in>set pkgsNames. \<forall>q\<in>set (cfg_Packages d) \<union> Versioned ` set pkgsNames.
                q \<noteq> Versioned p \<longrightarrow> q \<noteq> CanonicalName p \<and> CanonicalName q \<noteq> CanonicalName p) \<longrightarrow>
              (\<exists>pkgs. fst (addLoop env (Uniq pkgsNames) [] d) = Inr pkgs)
              \<and> (\<exists>cfg'. snd (Add env pkgsNames d) = d\<lparr>cfg_Packages := cfg'\<rparr>))"
proof -
  define res where "res = fst (addLoop env (Uniq pkgsNames) [] d)"
  define d1 where "d1 = snd (addLoop env (Uniq pkgsNames) [] d)"
  have loop: "addLoop env (Uniq pkgsNames) [] d = (res, d1)" by (simp add: res_def d1_def)
  have inst: "installsOf (events d1) = installsOf (events d)"
    unfolding d1_def by (rule addLoop_installs)
  have mem: "Versioned p \<in> set pkgs'" if "res = Inr pkgs'" for pkgs'
    using addLoop_collects[of env "Uniq pkgsNames" "[]" d pkgs' d1 p] loop that assms(1,2)
    by (simp add: set_Uniq)
  have stop: "\<exists>e. Add env pkgsNames d = (Some e, d1)
                \<and> (\<forall>pkgs'. res = Inr pkgs' \<longrightarrow> validateLoop env pkgs' = Some e)
                \<and> (\<forall>e'. res = Inl e' \<longrightarrow> e = e')"
  proof (cases res)
    case (Inl e)
    with loop show ?thesis by (simp add: Add_def)
  next
    case (Inr pkgs')
    from validateLoop_fails[OF mem[OF Inr], of env] assms(3) obtain e where "validateLoop env pkgs' = Some e"
      by auto
    with loop Inr show ?thesis by (simp add: Add_def)
  qed
  then obtain e where run: "Add env pkgsNames d = (Some e, d1)"
    and val: "\<And>pkgs'. res = Inr pkgs' \<Longrightarrow> validateLoop env pkgs' = Some e"
    and rem: "\<And>e'. res = Inl e' \<Longrightarrow> e = e'" by blast
  have kind: "\<exists>v\<in>set pkgs. ValidateExists env v = Inr False
                \<and> fst (Add env pkgsNames d) = Some (Wrap ErrPackageNotFound v)"
    if "res = Inr pkgs" "\<forall>v\<in>set pkgs. \<exists>ok. ValidateExists env v = Inr ok" for pkgs
    using validateLoop_not_found[OF that(2) val[OF that(1)]] run by auto
  have untouched: "(\<exists>pkgs. res = Inr pkgs) \<and> (\<exists>cfg'. d1 = d\<lparr>cfg_Packages := cfg'\<rparr>)"
    if clash: "\<forall>p\<in>set pkgsNames. \<forall>q\<in>set (cfg_Packages d) \<union> Versioned ` set pkgsNames.
                q \<noteq> Versioned p \<longrightarrow> q \<noteq> CanonicalName p \<and> CanonicalName q \<noteq> CanonicalName p"
  proof -
    have "\<exists>pkgs' cfg'. addLoop env (Uniq pkgsNames) [] d = (Inr pkgs', d\<lparr>cfg_Packages := cfg'\<rparr>)"
      by (rule addLoop_no_replacement[of _ "Versioned ` set pkgsNames"]) (use clash in \<open>simp_all add: set_Uniq\<close>)
    with loop show ?thesis by auto
  qed
  have "\<exists>e. fst (Add env pkgsNames d) = Some e" using run by simp
  moreover have "installsOf (events (snd (Add env pkgsNames d))) = installsOf (events d)"
    using run inst by simp
  moreover have "snd (Add env pkgsNames d) = d1" using run by simp
  moreover have "\<forall>e'. res = Inl e' \<longrightarrow> fst (Add env pkgsNames d) = Some e'"
    using run rem by simp
  ultimately show ?thesis
    using kind untouched unfolding res_def[symmetric] d1_def[symmetric] by simp
qed

text \<open>
  Adding \<open>c@9\<close>, which does not exist and replaces nothing, and adding \<open>a@9\<close>, which
  does not exist and replaces \<open>a@1\<close>, to the converged project.
\<close>

theorem Add_validation_failure_witness:
  "''c@9'' \<in> set [''c@9''] \<and> Versioned ''c@9'' \<notin> set (cfg_Packages settled)
   \<and> ValidateExists (lacking ''c@9'') (Versioned ''c@9'') = Inr False
   \<and> fst (Add (lacking ''c@9'') [''c@9''] settled) = Some (Wrap ErrPackageNotFound ''c@9'')
   \<and> installsOf (events (snd (Add (lacking ''c@9'') [''c@9''] settled))) = []
   \<and> profile (snd (Add (lacking ''c@9'') [''c@9''] settled)) = profile settled
   \<and> lockfile (snd (Add (lacking ''c@9'') [''c@9''] settled)) = lockfile settled
   \<and> savedLockfile (snd (Add (lacking ''c@9'') [''c@9''] settled)) = savedLockfile settled
   \<and> events (snd (Add (lacking ''c@9'') [''c@9''] settled)) = events settled
   \<and> ''a@9'' \<in> set [''a@9''] \<and> Versioned ''a@9'' \<notin> set (cfg_Packages settled)
   \<and> ValidateExists (lacking ''a@9'') (Versioned ''a@9'') = Inr False
   \<and> fst (addLoop (lacking ''a@9'') (Uniq [''a@9'']) [] settled) = Inr [''a@9'']
   \<and> fst (Add (lacking ''a@9'') [''a@9''] settled) = Some (Wrap ErrPackageNotFound ''a@9'')
   \<and> installsOf (events (snd (Add (lacking ''a@9'') [''a@9''] settled))) = []"
proof -
  have v: "Versioned ''c@9'' = ''c@9''" "Versioned ''a@9'' = ''a@9''" by (simp_all add: Versioned_def)
  have h1: "''c@9'' \<in> set [''c@9'']" by simp
  have h2: "Versioned ''c@9'' \<notin> set (cfg_Packages settled)" by (simp add: v settled_def)
  have h3: "ValidateExists (lacking ''c@9'') (Versioned ''c@9'') = Inr False"
    by (simp add: v lacking_def calmWorld_def)
  have h4: "\<forall>p\<in>set [''c@9'']. \<forall>q\<in>set (cfg_Packages settled) \<union> Versioned ` set [''c@9''].
              q \<noteq> Versioned p \<longrightarrow> q \<noteq> CanonicalName p \<and> CanonicalName q \<noteq> CanonicalName p"
    by (simp add: v settled_def CanonicalName_def)
  have h5: "\<forall>v\<in>set pkgs. \<exists>ok. ValidateExists (lacking x) v = Inr ok" for pkgs x
    by (simp add: lacking_def calmWorld_def)
  have l1: "fst (addLoop (lacking ''c@9'') (Uniq [''c@9'']) [] settled) = Inr [''c@9'']"
    by code_simp
  note c = Add_validation_failure[OF h1 h2 h3]
  from c have c1: "installsOf (events (snd (Add (lacking ''c@9'') [''c@9''] settled)))
                     = installsOf (events settled)"
    by blast
  from c h4 obtain cfg' where
    c2: "snd (Add (lacking ''c@9'') [''c@9''] settled) = settled\<lparr>cfg_Packages := cfg'\<rparr>"
    by blast
  from c l1 h5[of "[''c@9'']" "''c@9''"]
  have "\<exists>v\<in>set [''c@9'']. ValidateExists (lacking ''c@9'') v = Inr False
          \<and> fst (Add (lacking ''c@9'') [''c@9''] settled) = Some (Wrap ErrPackageNotFound v)"
    by blast
  then have c3: "fst (Add (lacking ''c@9'') [''c@9''] settled) = Some (Wrap ErrPackageNotFound ''c@9'')"
    by simp
  have g1: "''a@9'' \<in> set [''a@9'']" by simp
  have g2: "Versioned ''a@9'' \<notin> set (cfg_Packages settled)" by (simp add: v settled_def)
  have g3: "ValidateExists (lacking ''a@9'') (Versioned ''a@9'') = Inr False"
    by (simp add: v lacking_def calmWorld_def)
  have l2: "fst (addLoop (lacking ''a@9'') (Uniq [''a@9'']) [] settled) = Inr [''a@9'']"
    by code_simp
  note a = Add_validation_failure[OF g1 g2 g3]
  from a have a1: "installsOf (events (snd (Add (lacking ''a@9'') [''a@9''] settled)))
                     = installsOf (events settled)"
    by blast
  from a l2 h5[of "[''a@9'']" "''a@9''"]
  have "\<exists>v\<in>set [''a@9'']. ValidateExists (lacking ''a@9'') v = Inr False
          \<and> fst (Add (lacking ''a@9'') [''a@9''] settled) = Some (Wrap ErrPackageNotFound v)"
    by blast
  then have a3: "fst (Add (lacking ''a@9'') [''a@9''] settled) = Some (Wrap ErrPackageNotFound ''a@9'')"
    by simp
  have e: "installsOf (events settled) = []" by (simp add: settled_def)
  show ?thesis
    using c1 c2 c3 a1 a3 h1 h2 h3 g1 g2 g3 l2 e by simp
qed

text \<open>
  C6 as stated fails: with \<open>a@1\<close>, \<open>b@2\<close> declared and installed, adding \<open>a@9\<close>, which
  does not exist, ends in the not-found error, but the replacement loop has by then
  removed \<open>a@1\<close> from the profile and saved a lockfile without it.
\<close>

theorem Add_validation_after_replacement:
  "fst (Add (lacking ''a@9'') [''a@9''] settled) = Some (Wrap ErrPackageNotFound ''a@9'')
   \<and> profile settled = [''a@1'', ''b@2'']
   \<and> profile (snd (Add (lacking ''a@9'') [''a@9''] settled)) = [''b@2'']
   \<and> savedLockfile settled = [(''a@1'', ''a@1''), (''b@2'', ''b@2'')]
   \<and> savedLockfile (snd (Add (lacking ''a@9'') [''a@9''] settled)) = [(''b@2'', ''b@2'')]
   \<and> EvProfileRemove 0 \<in> set (events (snd (Add (lacking ''a@9'') [''a@9''] settled)))"
  by code_simp

end
